theory Spec2Isabelle
  imports Main
begin

section \<open>Python text operations used by the notebook\<close>

text \<open>
  The notebook \<^verbatim>\<open>02_bert_embedded_descriptions.ipynb\<close> works on Python \<^verbatim>\<open>str\<close>
  values. A text is a \<^typ>\<open>string\<close>; each \<^typ>\<open>char\<close> stands for one code point
  below 256.
\<close>

definition isspace :: "char \<Rightarrow> bool" where
  \<comment> \<open>The code points below 256 that \<^verbatim>\<open>str.strip()\<close> removes: TAB, LF, VT, FF, CR,
      FS, GS, RS, US, SPACE, NEL and NBSP.\<close>
  "isspace c = (of_char c \<in> set [9, 10, 11, 12, 13, 28, 29, 30, 31, 32, 133, 160 :: nat])"

definition strip :: "string \<Rightarrow> string" where
  \<comment> \<open>\<^verbatim>\<open>x.strip()\<close>: skip whitespace from the left, then from the right.\<close>
  "strip s = rev (dropWhile isspace (rev (dropWhile isspace s)))"

fun split :: "char \<Rightarrow> string \<Rightarrow> string list" where
  \<comment> \<open>\<^verbatim>\<open>s.split(sep)\<close> for a one-character separator: the empty text gives one
      empty fragment, and \<open>n\<close> separators give \<open>n + 1\<close> fragments.\<close>
  "split sep [] = [[]]"
| "split sep (c # cs) =
     (if c = sep then [] # split sep cs
      else (case split sep cs of
              [] \<Rightarrow> [[c]]
            | f # fs \<Rightarrow> (c # f) # fs))"

fun join :: "string \<Rightarrow> string list \<Rightarrow> string" where
  \<comment> \<open>\<^verbatim>\<open>sep.join(xs)\<close>\<close>
  "join sep [] = []"
| "join sep [x] = x"
| "join sep (x # y # ys) = x @ sep @ join sep (y # ys)"

section \<open>Errors\<close>

datatype error =
    KeyError          \<comment> \<open>\<^verbatim>\<open>.loc\<close> with a label that the frame does not have\<close>
  | IndexError        \<comment> \<open>\<^verbatim>\<open>[0]\<close> on an empty sequence\<close>
  | AttributeError    \<comment> \<open>\<^verbatim>\<open>.split\<close> on a value that is not a \<^verbatim>\<open>str\<close>\<close>
  | ValueError        \<comment> \<open>\<^verbatim>\<open>float(x)\<close> on a text that is not a number; a frame assigned to one column\<close>
  | EmptyDataError    \<comment> \<open>\<^verbatim>\<open>pd.read_csv\<close> on a file without a header row\<close>
  | ParserError       \<comment> \<open>\<^verbatim>\<open>pd.read_csv\<close> on a row with too many fields or an open quote\<close>

section \<open>Description Selector (cells 11 and 12, lines 212-225)\<close>

text \<open>
  A pandas frame is a list of rows, each with its index label. \<^verbatim>\<open>pd.read_csv\<close> labels
  the rows 0, 1, 2, ...; every later operation carries the labels along. A row of
  \<^verbatim>\<open>data[['PID', 'Description']]\<close> is a pair of the identifier and the description,
  the description being \<open>None\<close> where pandas holds NaN.
\<close>

type_synonym 'r frame = "(nat \<times> 'r) list"

definition range_index :: "'r list \<Rightarrow> 'r frame" where
  "range_index rows = zip [0..<length rows] rows"

fun keep_first :: "'v list \<Rightarrow> ('r \<Rightarrow> 'v) \<Rightarrow> 'r frame \<Rightarrow> 'r frame" where
  \<comment> \<open>One pass over the rows with the values seen so far: a row stays when the value of
      its column \<open>col\<close> has not been seen. pandas compares NaN equal to NaN here.\<close>
  "keep_first seen col [] = []"
| "keep_first seen col ((label, row) # df) =
     (if col row \<in> set seen then keep_first seen col df
      else (label, row) # keep_first (col row # seen) col df)"

definition drop_duplicates :: "('r \<Rightarrow> 'v) \<Rightarrow> 'r frame \<Rightarrow> 'r frame" where
  \<comment> \<open>\<^verbatim>\<open>.drop_duplicates()\<close> with its default \<^verbatim>\<open>keep='first'\<close>\<close>
  "drop_duplicates col df = keep_first [] col df"

fun loc :: "'r frame \<Rightarrow> nat list \<Rightarrow> error + 'r frame" where
  \<comment> \<open>\<^verbatim>\<open>df.loc[labels]\<close>: for each label in turn, the rows that carry it\<close>
  "loc df [] = Inr []"
| "loc df (label # labels) =
     (case filter (\<lambda>(l, row). l = label) df of
        [] \<Rightarrow> Inl KeyError
      | hit # hits \<Rightarrow>
          (case loc df labels of
             Inl e \<Rightarrow> Inl e
           | Inr rest \<Rightarrow> Inr ((hit # hits) @ rest)))"

definition description_selector :: "('k \<times> string option) list \<Rightarrow> error + ('k \<times> string option) frame" where
  "description_selector data =
     (let all_descriptions = drop_duplicates (\<lambda>row. row) (range_index data);
          pid_only_index = map fst (drop_duplicates fst all_descriptions)
      in loc all_descriptions pid_only_index)"

definition itertuples :: "'r frame \<Rightarrow> 'r list" where
  \<comment> \<open>the rows in frame order (the loop reads \<^verbatim>\<open>row.PID\<close> and \<^verbatim>\<open>row.Description\<close>)\<close>
  "itertuples df = map snd df"

section \<open>Text Normalizer (cell 14, lines 280-287)\<close>

text \<open>
  \<^verbatim>\<open>row.Description\<close> is a \<^verbatim>\<open>float\<close> (NaN) when the description is missing and a
  \<^verbatim>\<open>str\<close> otherwise: \<^typ>\<open>string option\<close>. The result \<^verbatim>\<open>desc\<close> is a Python list.
\<close>

definition normalizer :: "string option \<Rightarrow> string list" where
  "normalizer description =
     (case description of
        None \<Rightarrow> [''_'']
      | Some d \<Rightarrow>
          (let desc = map strip (filter (\<lambda>x. x \<noteq> []) (split (CHR ''.'') d))
           in [join '' '' desc]))"

definition normalizer_as_specified :: "string \<Rightarrow> string" where
  \<comment> \<open>Section 4.2 of the specification, by its words: split on the period, discard
      every fragment that is empty after trimming, trim the rest, rejoin with one
      space.\<close>
  "normalizer_as_specified d =
     join '' '' (filter (\<lambda>x. x \<noteq> []) (map strip (split (CHR ''.'') d)))"

section \<open>Embedding Writer (cell 14, lines 274-293)\<close>

text \<open>
  The identifier column holds integers (\<^verbatim>\<open>numpy.int64\<close>, as the notebook's output
  shows): \<^typ>\<open>int\<close>. The components of an embedding are \<^verbatim>\<open>numpy.float32\<close> values:
  a type parameter, with numpy's conversion of a component to text as the parameter
  \<open>repr\<close>. The embedding provider \<^verbatim>\<open>extract_embeddings\<close> with its fixed model path,
  layer and poolings is the parameter \<open>extract\<close>, from a list of texts to a list of
  vectors.
\<close>

fun digits10 :: "nat \<Rightarrow> string" where
  "digits10 n =
     (if n < 10 then [''0123456789'' ! n]
      else digits10 (n div 10) @ [''0123456789'' ! (n mod 10)])"

declare digits10.simps [simp del]

definition str_int :: "int \<Rightarrow> string" where
  \<comment> \<open>\<^verbatim>\<open>str(row.PID)\<close>, taken by \<^verbatim>\<open>csv.writer\<close> of a field that is not a \<^verbatim>\<open>str\<close>\<close>
  "str_int i = (if i < 0 then CHR ''-'' # digits10 (nat (- i)) else digits10 (nat i))"

definition str_list :: "('f \<Rightarrow> string) \<Rightarrow> 'f list \<Rightarrow> string" where
  \<comment> \<open>\<^verbatim>\<open>str(list(emb))\<close>: the elements' \<^verbatim>\<open>repr\<close>, separated by a comma and a space,
      in square brackets\<close>
  "str_list repr xs = ''['' @ join '', '' (map repr xs) @ '']''"

definition remove_char :: "char \<Rightarrow> string \<Rightarrow> string" where
  \<comment> \<open>\<^verbatim>\<open>s.replace(c, '')\<close>\<close>
  "remove_char c s = filter (\<lambda>x. x \<noteq> c) s"

definition format_embedding :: "('f \<Rightarrow> string) \<Rightarrow> 'f list \<Rightarrow> string" where
  \<comment> \<open>line 291\<close>
  "format_embedding repr emb = remove_char (CHR '']'') (remove_char (CHR ''['') (str_list repr emb))"

text \<open>
  \<^verbatim>\<open>csv.writer(csvfile, delimiter=",")\<close> keeps the other defaults of the dialect: quote
  character \<^verbatim>\<open>"\<close>, doubled inside a quoted field, minimal quoting (a field is quoted
  when it holds the delimiter, the quote character, CR or LF), and CR LF after each
  row. The file is opened with \<^verbatim>\<open>newline=''\<close>, which writes the CR LF unchanged.
\<close>

definition needs_quotes :: "string \<Rightarrow> bool" where
  "needs_quotes field = (\<exists>c \<in> set field. c \<in> set [CHR '','', CHR 0x22, CHR 0x0D, CHR 0x0A])"

definition quote_field :: "string \<Rightarrow> string" where
  "quote_field field =
     (if needs_quotes field
      then [CHR 0x22] @ concat (map (\<lambda>c. if c = CHR 0x22 then [CHR 0x22, CHR 0x22] else [c]) field) @ [CHR 0x22]
      else field)"

definition writerow :: "string list \<Rightarrow> string" where
  \<comment> \<open>a row of one empty field is written as an empty quoted field\<close>
  "writerow fields =
     (if fields = [[]] then [CHR 0x22, CHR 0x22] else join '','' (map quote_field fields))
     @ [CHR 0x0D, CHR 0x0A]"

definition write_record :: "('f \<Rightarrow> string) \<Rightarrow> int \<times> 'f list \<Rightarrow> string" where
  \<comment> \<open>lines 291 and 293: the row written for one identifier and its embedding\<close>
  "write_record repr rec = writerow [str_int (fst rec), format_embedding repr (snd rec)]"

definition embedding_writer :: "('f \<Rightarrow> string) \<Rightarrow> (int \<times> 'f list) list \<Rightarrow> string" where
  \<comment> \<open>the content of the file after cell 14 has written the header and the records\<close>
  "embedding_writer repr records =
     writerow [''PID'', ''embedding''] @ concat (map (write_record repr) records)"

text \<open>
  The loop of cell 14 with its effects: the state is the content of the output file.
  Opening the file for writing empties it; each \<^verbatim>\<open>writerow\<close> appends. An exception
  ends the run and leaves what has been written.
\<close>

fun write_rows ::
  "(string list \<Rightarrow> 'f list list) \<Rightarrow> ('f \<Rightarrow> string) \<Rightarrow> (int \<times> string option) list \<Rightarrow> string \<Rightarrow> error option \<times> string" where
  "write_rows extract repr [] csvfile = (None, csvfile)"
| "write_rows extract repr ((pid, description) # rows) csvfile =
     (let desc = normalizer description in
      case extract desc of
        [] \<Rightarrow> (Some IndexError, csvfile)
      | emb # _ \<Rightarrow> write_rows extract repr rows (csvfile @ write_record repr (pid, emb)))"

definition create_embedding_csv ::
  "(string list \<Rightarrow> 'f list list) \<Rightarrow> ('f \<Rightarrow> string) \<Rightarrow> (int \<times> string option) list \<Rightarrow> string \<Rightarrow> error option \<times> string" where
  \<comment> \<open>cell 14 on the rows of \<^verbatim>\<open>projects\<close>; \<open>old\<close> is the file's content before the run\<close>
  "create_embedding_csv extract repr projects old =
     (let csvfile = [];
          csvfile = csvfile @ writerow [''PID'', ''embedding'']
      in write_rows extract repr projects csvfile)"

definition pipeline ::
  "(string list \<Rightarrow> 'f list list) \<Rightarrow> ('f \<Rightarrow> string) \<Rightarrow> (int \<times> string option) list \<Rightarrow> string \<Rightarrow> error option \<times> string" where
  \<comment> \<open>cells 11, 12 and 14 in sequence\<close>
  "pipeline extract repr data old =
     (case description_selector data of
        Inl e \<Rightarrow> (Some e, old)
      | Inr projects \<Rightarrow> create_embedding_csv extract repr (itertuples projects) old)"

section \<open>The numbers of the specification's scenarios\<close>

text \<open>
  A text that numpy gives for a \<^verbatim>\<open>float32\<close> consists of digits, a sign, a point, an
  exponent mark, or the letters of \<^verbatim>\<open>inf\<close> and \<^verbatim>\<open>nan\<close>.
\<close>

definition decimal_text :: "string \<Rightarrow> bool" where
  "decimal_text t = (t \<noteq> [] \<and> (\<forall>c \<in> set t. c \<in> set ''0123456789+-.einfa''))"

text \<open>
  The scenarios of the specification use three numbers, 0.1, -2.5 and 1.0, with the
  texts that the specification prints for them. The provider of the scenarios gives the
  one-component vector for the placeholder text and the two-component vector for every
  other text.
\<close>

datatype scenario_number = Tenth | MinusTwoAndHalf | One

fun scenario_repr :: "scenario_number \<Rightarrow> string" where
  "scenario_repr Tenth = ''0.1''"
| "scenario_repr MinusTwoAndHalf = ''-2.5''"
| "scenario_repr One = ''1.0''"

definition scenario_extract :: "string list \<Rightarrow> scenario_number list list" where
  "scenario_extract desc = map (\<lambda>t. if t = ''_'' then [One] else [Tenth, MinusTwoAndHalf]) desc"


section \<open>Embedding Reader (cells 20 and 21, lines 343-348)\<close>

subsection \<open>\<^verbatim>\<open>pd.read_csv\<close> with its defaults\<close>

text \<open>
  pandas reads the file with its tokenizer in the default dialect: delimiter
  \<^verbatim>\<open>,\<close>, quote character \<^verbatim>\<open>"\<close> (doubled inside a quoted field), rows ended by LF, CR
  or CR LF, blank lines and lines of spaces and tabs skipped. The tokenizer is a state
  machine over the characters; its state holds the field, the row and the rows read so
  far.
\<close>

datatype mode =
    StartRecord | WhitespaceLine | StartField | InField | InQuotedField
  | QuoteInQuotedField | EatCRNL | EatCRNLNop

type_synonym parser = "mode \<times> string \<times> string list \<times> string list list"

definition start_field :: "char \<Rightarrow> string list \<Rightarrow> string list list \<Rightarrow> parser" where
  "start_field c line lines =
     (if c = CHR 0x0A then (StartRecord, [], [], lines @ [line @ [[]]])
      else if c = CHR 0x0D then (EatCRNL, [], line @ [[]], lines)
      else if c = CHR 0x22 then (InQuotedField, [], line, lines)
      else if c = CHR '','' then (StartField, [], line @ [[]], lines)
      else (InField, [c], line, lines))"

definition in_field :: "char \<Rightarrow> string \<Rightarrow> string list \<Rightarrow> string list list \<Rightarrow> parser" where
  "in_field c field line lines =
     (if c = CHR 0x0A then (StartRecord, [], [], lines @ [line @ [field]])
      else if c = CHR 0x0D then (EatCRNL, [], line @ [field], lines)
      else if c = CHR '','' then (StartField, [], line @ [field], lines)
      else (InField, field @ [c], line, lines))"

definition start_record :: "char \<Rightarrow> string list list \<Rightarrow> parser" where
  "start_record c lines =
     (if c = CHR 0x0A then (StartRecord, [], [], lines)
      else if c = CHR 0x0D then (EatCRNLNop, [], [], lines)
      else if c = CHR '' '' \<or> c = CHR 0x09 then (WhitespaceLine, [c], [], lines)
      else start_field c [] lines)"

fun tokenize_step :: "parser \<Rightarrow> char \<Rightarrow> parser" where
  "tokenize_step (StartRecord, field, line, lines) c = start_record c lines"
| "tokenize_step (WhitespaceLine, field, line, lines) c =
     (if c = CHR 0x0A then (StartRecord, [], [], lines)
      else if c = CHR 0x0D then (EatCRNLNop, [], [], lines)
      else if c = CHR '' '' \<or> c = CHR 0x09 then (WhitespaceLine, field @ [c], [], lines)
      else in_field c field [] lines)"
| "tokenize_step (StartField, field, line, lines) c = start_field c line lines"
| "tokenize_step (InField, field, line, lines) c = in_field c field line lines"
| "tokenize_step (InQuotedField, field, line, lines) c =
     (if c = CHR 0x22 then (QuoteInQuotedField, field, line, lines)
      else (InQuotedField, field @ [c], line, lines))"
| "tokenize_step (QuoteInQuotedField, field, line, lines) c =
     (if c = CHR 0x22 then (InQuotedField, field @ [c], line, lines)
      else in_field c field line lines)"
| "tokenize_step (EatCRNL, field, line, lines) c =
     (if c = CHR 0x0A then (StartRecord, [], [], lines @ [line])
      else start_record c (lines @ [line]))"
| "tokenize_step (EatCRNLNop, field, line, lines) c =
     (if c = CHR 0x0A \<or> c = CHR '','' then (StartRecord, [], [], lines)
      else start_record c lines)"

fun handle_eof :: "parser \<Rightarrow> error + string list list" where
  "handle_eof (StartRecord, field, line, lines) = Inr lines"
| "handle_eof (WhitespaceLine, field, line, lines) = Inr lines"
| "handle_eof (EatCRNLNop, field, line, lines) = Inr lines"
| "handle_eof (InQuotedField, field, line, lines) = Inl ParserError"
| "handle_eof (EatCRNL, field, line, lines) = Inr (lines @ [line])"
| "handle_eof (StartField, field, line, lines) = Inr (lines @ [line @ [field]])"
| "handle_eof (InField, field, line, lines) = Inr (lines @ [line @ [field]])"
| "handle_eof (QuoteInQuotedField, field, line, lines) = Inr (lines @ [line @ [field]])"

definition tokenize :: "string \<Rightarrow> error + string list list" where
  "tokenize text = handle_eof (foldl tokenize_step (StartRecord, [], [], []) text)"

text \<open>
  The first row names the columns. A data row with fewer fields than the row before it
  is filled with empty fields; from the second data row on, a row with more fields than
  the row before it is an error. When the first data row has more fields than the
  header, the leading fields in excess are the index and not a column.
\<close>

fun pad_rows :: "nat \<Rightarrow> string list list \<Rightarrow> error + string list list" where
  "pad_rows width [] = Inr []"
| "pad_rows width (r # rs) =
     (if width < length r then Inl ParserError
      else (case pad_rows width rs of
              Inl e \<Rightarrow> Inl e
            | Inr rest \<Rightarrow> Inr ((r @ replicate (width - length r) []) # rest)))"

text \<open>
  The values of a column are inferred from its fields together, in the order integers,
  numbers, truth values, texts. A field that is one of the default missing-value
  markers is NaN.

  The integer conversion reads a field as spaces, an optional sign, digits and spaces.
  It goes through the fields in order and stops at the first field that is not such a
  text or whose digits do not fit in 64 signed bits. In the second case the column is
  read again as unsigned integers of 64 bits, where a field that starts with a minus
  sign is only recorded as negative. A column of integer texts that fit neither way
  stays a column of texts.

  The conversion of a field to a number is pandas' floating-point conversion: the
  parameter \<open>pd_number\<close>, \<open>None\<close> for a field that is not a number.
\<close>

datatype 'g cell =
    IntCell int | NumCell 'g | BoolCell bool | StrCell string | NaNCell
  | ListCell "'g list"   \<comment> \<open>the list of floats that \<^verbatim>\<open>convert\<close> returns\<close>

definition na_values :: "string list" where
  "na_values = ['''', ''#N/A'', ''#N/A N/A'', ''#NA'', ''-1.#IND'', ''-1.#QNAN'', ''-NaN'',
     ''-nan'', ''1.#IND'', ''1.#QNAN'', ''<NA>'', ''N/A'', ''NA'', ''NULL'', ''NaN'', ''n/a'',
     ''nan'', ''null'']"

definition is_ascii_space :: "char \<Rightarrow> bool" where
  "is_ascii_space c = (c \<in> set [CHR '' '', CHR 0x09, CHR 0x0A, CHR 0x0B, CHR 0x0C, CHR 0x0D])"

definition is_digit :: "char \<Rightarrow> bool" where
  "is_digit c = (c \<in> set ''0123456789'')"

definition digits_value :: "string \<Rightarrow> int" where
  "digits_value ds = foldl (\<lambda>n c. 10 * n + (of_char c - 48)) 0 ds"

datatype int_text = IntOk int | Negative | Overflow | Invalid

definition read_int64 :: "string \<Rightarrow> int_text" where
  "read_int64 s =
     (let p = dropWhile is_ascii_space s;
          neg = (p \<noteq> [] \<and> hd p = CHR ''-'');
          q = (if p \<noteq> [] \<and> (hd p = CHR ''-'' \<or> hd p = CHR ''+'') then tl p else p);
          ds = takeWhile is_digit q;
          v = (if neg then - digits_value ds else digits_value ds)
      in if ds = [] then Invalid
         else if v < - (2 ^ 63) \<or> 2 ^ 63 \<le> v then Overflow
         else if dropWhile is_ascii_space (dropWhile is_digit q) \<noteq> [] then Invalid
         else IntOk v)"

definition read_uint64 :: "string \<Rightarrow> int_text" where
  "read_uint64 s =
     (let p = dropWhile is_ascii_space s;
          q = (if p \<noteq> [] \<and> hd p = CHR ''+'' then tl p else p);
          ds = takeWhile is_digit q;
          v = digits_value ds
      in if p \<noteq> [] \<and> hd p = CHR ''-'' then Negative
         else if ds = [] then Invalid
         else if 2 ^ 64 \<le> v then Overflow
         else if dropWhile is_ascii_space (dropWhile is_digit q) \<noteq> [] then Invalid
         else IntOk v)"

datatype scan = AllRead | NotIntegers | TooWide

fun scan_column :: "(string \<Rightarrow> int_text) \<Rightarrow> string list \<Rightarrow> scan" where
  "scan_column rd [] = AllRead"
| "scan_column rd (f # fs) =
     (if f \<in> set na_values then scan_column rd fs
      else (case rd f of
              IntOk v \<Rightarrow> scan_column rd fs
            | Negative \<Rightarrow> scan_column rd fs
            | Overflow \<Rightarrow> TooWide
            | Invalid \<Rightarrow> NotIntegers))"

definition int_cells :: "(string \<Rightarrow> int_text) \<Rightarrow> string list \<Rightarrow> 'g cell list" where
  "int_cells rd fields = map (\<lambda>f. case rd f of IntOk v \<Rightarrow> IntCell v | _ \<Rightarrow> NaNCell) fields"

definition text_cells :: "string list \<Rightarrow> 'g cell list" where
  "text_cells fields = map (\<lambda>f. if f \<in> set na_values then NaNCell else StrCell f) fields"

definition ascii_upper :: "char \<Rightarrow> char" where
  "ascii_upper c =
     (let n = of_char c :: nat in if 97 \<le> n \<and> n \<le> 122 then char_of (n - 32) else c)"

definition pd_bool :: "string \<Rightarrow> bool option" where
  \<comment> \<open>a truth value is \<^verbatim>\<open>true\<close> or \<^verbatim>\<open>false\<close> in any mix of upper and lower case\<close>
  "pd_bool s =
     (if map ascii_upper s = ''TRUE'' then Some True
      else if map ascii_upper s = ''FALSE'' then Some False
      else None)"

definition later_types :: "(string \<Rightarrow> 'g option) \<Rightarrow> string list \<Rightarrow> 'g cell list" where
  \<comment> \<open>numbers and NaN, else truth values and NaN, else texts and NaN\<close>
  "later_types pd_number fields =
     (if list_all (\<lambda>f. f \<in> set na_values \<or> pd_number f \<noteq> None) fields
      then map (\<lambda>f. if f \<in> set na_values then NaNCell
                     else case pd_number f of Some x \<Rightarrow> NumCell x | None \<Rightarrow> NaNCell) fields
      else if list_all (\<lambda>f. f \<in> set na_values \<or> pd_bool f \<noteq> None) fields
      then map (\<lambda>f. if f \<in> set na_values then NaNCell
                     else case pd_bool f of Some b \<Rightarrow> BoolCell b | None \<Rightarrow> NaNCell) fields
      else text_cells fields)"

definition infer_column :: "(string \<Rightarrow> 'g option) \<Rightarrow> string list \<Rightarrow> 'g cell list" where
  \<comment> \<open>integers with a missing value are held as numbers\<close>
  "infer_column pd_number fields =
     (case scan_column read_int64 fields of
        AllRead \<Rightarrow>
          (if list_ex (\<lambda>f. f \<in> set na_values) fields then later_types pd_number fields
           else int_cells read_int64 fields)
      | NotIntegers \<Rightarrow> later_types pd_number fields
      | TooWide \<Rightarrow>
          (case scan_column read_uint64 fields of
             AllRead \<Rightarrow>
               (if list_ex (\<lambda>f. f \<in> set na_values \<or> read_uint64 f = Negative) fields
                then text_cells fields
                else int_cells read_uint64 fields)
           | NotIntegers \<Rightarrow> later_types pd_number fields
           | TooWide \<Rightarrow> text_cells fields))"

text \<open>
  pandas reads the data rows in pieces (its default \<^verbatim>\<open>low_memory\<close> mode): the number of
  rows of a piece is the parameter \<open>buffer_lines\<close>, which pandas fixes from the width of
  the table. The values of a column are inferred for each piece on its own, and the
  cells of the pieces are put together; where the pieces disagree the column holds
  mixed values.
\<close>

function pieces :: "nat \<Rightarrow> 'a list \<Rightarrow> 'a list list" where
  "pieces n xs = (if xs = [] then [] else take (max 1 n) xs # pieces n (drop (max 1 n) xs))"
  by pat_completeness auto
termination
  by (relation "measure (\<lambda>(n, xs). length xs)") auto

declare pieces.simps [simp del]

definition infer_pieces :: "nat \<Rightarrow> (string \<Rightarrow> 'g option) \<Rightarrow> string list \<Rightarrow> 'g cell list" where
  "infer_pieces buffer_lines pd_number fields =
     concat (map (infer_column pd_number) (pieces buffer_lines fields))"

text \<open>
  A frame read from a file: the names of its columns and its rows of cells.
\<close>

definition read_csv ::
  "nat \<Rightarrow> (string \<Rightarrow> 'g option) \<Rightarrow> string \<Rightarrow> error + string list \<times> 'g cell list list" where
  "read_csv buffer_lines pd_number text =
     (case tokenize text of
        Inl e \<Rightarrow> Inl e
      | Inr [] \<Rightarrow> Inl EmptyDataError
      | Inr (header # data) \<Rightarrow>
          (let width = (case data of [] \<Rightarrow> length header | r # _ \<Rightarrow> max (length header) (length r))
           in case pad_rows width data of
                Inl e \<Rightarrow> Inl e
              | Inr padded \<Rightarrow>
                  (let columns = map (\<lambda>j. map (\<lambda>r. r ! j) padded) [width - length header..<width]
                   in Inr (header, transpose (map (infer_pieces buffer_lines pd_number) columns)))))"

subsection \<open>\<^verbatim>\<open>convert\<close> and its application to every row\<close>

text \<open>
  \<^verbatim>\<open>float(x)\<close> skips the whitespace around its argument (TAB, LF, VT, FF, CR, SPACE, NEL
  and NBSP among the code points below 256); the conversion of the rest to a float is
  the parameter \<open>py_float\<close>, \<open>None\<close> where Python raises \<^verbatim>\<open>ValueError\<close>.
  \<^verbatim>\<open>s.embedding\<close> is the cell of the row in the first column named \<^verbatim>\<open>embedding\<close>
  (pandas renames a later column of the same name); only a text has the method
  \<^verbatim>\<open>split\<close>.
\<close>

definition float_space :: "char \<Rightarrow> bool" where
  "float_space c = (of_char c \<in> set [9, 10, 11, 12, 13, 32, 133, 160 :: nat])"

definition float_strip :: "string \<Rightarrow> string" where
  "float_strip s = rev (dropWhile float_space (rev (dropWhile float_space s)))"

fun floats :: "(string \<Rightarrow> 'g option) \<Rightarrow> string list \<Rightarrow> error + 'g list" where
  "floats py_float [] = Inr []"
| "floats py_float (x # xs) =
     (case py_float (float_strip x) of
        None \<Rightarrow> Inl ValueError
      | Some y \<Rightarrow> (case floats py_float xs of Inl e \<Rightarrow> Inl e | Inr ys \<Rightarrow> Inr (y # ys)))"

definition convert :: "(string \<Rightarrow> 'g option) \<Rightarrow> string list \<Rightarrow> 'g cell list \<Rightarrow> error + 'g list" where
  "convert py_float columns s =
     (case find (\<lambda>(name, cell). name = ''embedding'') (zip columns s) of
        Some (name, StrCell embedding) \<Rightarrow> floats py_float (split (CHR '','') embedding)
      | _ \<Rightarrow> Inl AttributeError)"

text \<open>
  \<^verbatim>\<open>embedding.apply(convert, axis=1)\<close> on a frame with rows calls \<^verbatim>\<open>convert\<close> on each
  row in turn and gives the series of the results; the first exception ends it. On a
  frame without rows pandas calls \<^verbatim>\<open>convert\<close> once on an empty series, drops the
  \<^verbatim>\<open>AttributeError\<close> that this raises (an empty series has no \<^verbatim>\<open>embedding\<close>), and
  gives a copy of the frame.
\<close>

datatype 'g applied = Series "'g list list" | FrameCopy

fun apply_rows :: "('r \<Rightarrow> error + 'v) \<Rightarrow> 'r \<Rightarrow> 'r list \<Rightarrow> error + 'v list" where
  "apply_rows f r [] = (case f r of Inl e \<Rightarrow> Inl e | Inr v \<Rightarrow> Inr [v])"
| "apply_rows f r (r' # rs) =
     (case f r of
        Inl e \<Rightarrow> Inl e
      | Inr v \<Rightarrow> (case apply_rows f r' rs of Inl e \<Rightarrow> Inl e | Inr vs \<Rightarrow> Inr (v # vs)))"

definition apply_convert ::
  "(string \<Rightarrow> 'g option) \<Rightarrow> string list \<Rightarrow> 'g cell list list \<Rightarrow> error + 'g applied" where
  "apply_convert py_float columns frame =
     (case frame of
        [] \<Rightarrow> Inr FrameCopy
      | s # rest \<Rightarrow>
          (case apply_rows (convert py_float columns) s rest of
             Inl e \<Rightarrow> Inl e
           | Inr vectors \<Rightarrow> Inr (Series vectors)))"

text \<open>
  \<^verbatim>\<open>embedding['embedding'] = ...\<close> (line 348). A series of lists replaces the cells of
  the column row by row. A frame can be assigned to one column only when it has one
  column: the copy of a frame with another number of columns raises \<^verbatim>\<open>ValueError\<close>.
\<close>

definition set_column :: "string list \<Rightarrow> 'g cell list \<Rightarrow> 'g list \<Rightarrow> 'g cell list" where
  "set_column columns s v =
     (if ''embedding'' \<in> set columns
      then s[length (takeWhile (\<lambda>name. name \<noteq> ''embedding'') columns) := ListCell v]
      else s @ [ListCell v])"

definition set_embedding ::
  "string list \<Rightarrow> 'g cell list list \<Rightarrow> 'g applied \<Rightarrow> error + 'g cell list list" where
  "set_embedding columns frame result =
     (case result of
        FrameCopy \<Rightarrow> (if length columns = 1 then Inr frame else Inl ValueError)
      | Series vectors \<Rightarrow> Inr (map (\<lambda>(s, v). set_column columns s v) (zip frame vectors)))"

definition embedding_reader ::
  "nat \<Rightarrow> (string \<Rightarrow> 'g option) \<Rightarrow> (string \<Rightarrow> 'g option) \<Rightarrow> string \<Rightarrow> error + 'g cell list list" where
  "embedding_reader buffer_lines pd_number py_float text =
     (case read_csv buffer_lines pd_number text of
        Inl e \<Rightarrow> Inl e
      | Inr (columns, embedding) \<Rightarrow>
          (case apply_convert py_float columns embedding of
             Inl e \<Rightarrow> Inl e
           | Inr result \<Rightarrow> set_embedding columns embedding result))"

definition scenario_float :: "string \<Rightarrow> scenario_number option" where
  \<comment> \<open>the number that a text of the scenarios denotes\<close>
  "scenario_float t =
     (if t = ''0.1'' then Some Tenth
      else if t = ''-2.5'' then Some MinusTwoAndHalf
      else if t = ''1.0'' then Some One
      else None)"

section \<open>Properties of the text operations\<close>

lemma split_not_Nil: "split sep s \<noteq> []"
  by (induction s) (auto split: list.splits)

lemma split_no_sep: "f \<in> set (split sep s) \<Longrightarrow> sep \<notin> set f"
proof (induction s arbitrary: f)
  case Nil
  then show ?case by simp
next
  case (Cons c cs)
  show ?case
  proof (cases "c = sep")
    case True
    with Cons show ?thesis by auto
  next
    case False
    obtain g gs where g: "split sep cs = g # gs"
      using split_not_Nil [of sep cs] by (cases "split sep cs") auto
    with Cons False show ?thesis by auto
  qed
qed

lemma join_split: "join [sep] (split sep s) = s"
proof (induction s)
  case Nil
  then show ?case by simp
next
  case (Cons c cs)
  obtain g gs where g: "split sep cs = g # gs"
    using split_not_Nil [of sep cs] by (cases "split sep cs") auto
  show ?case
  proof (cases "c = sep")
    case True
    with Cons g show ?thesis by simp
  next
    case False
    with Cons g show ?thesis by (cases gs) auto
  qed
qed

lemma set_strip: "set (strip s) \<subseteq> set s"
proof -
  have "set (strip s) \<subseteq> set (dropWhile isspace s)"
    unfolding strip_def using set_dropWhileD by fastforce
  also have "\<dots> \<subseteq> set s"
    using set_dropWhileD by fastforce
  finally show ?thesis .
qed

lemma strip_keeps:
  assumes "c \<in> set s" and "\<not> isspace c"
  shows "c \<in> set (strip s)"
proof -
  have keep: "c \<in> set (dropWhile isspace xs)" if "c \<in> set xs" for xs
    using that assms(2) by (induction xs) auto
  have "c \<in> set (rev (dropWhile isspace s))"
    using keep [OF assms(1)] by simp
  then have "c \<in> set (dropWhile isspace (rev (dropWhile isspace s)))"
    by (rule keep)
  then show ?thesis by (simp add: strip_def)
qed

lemma set_join: "set (join sep xs) \<subseteq> set sep \<union> \<Union> (set ` set xs)"
  by (induction sep xs rule: join.induct) auto

lemma in_some_fragment:
  "c \<in> set s \<Longrightarrow> c \<noteq> sep \<Longrightarrow> \<exists>f \<in> set (split sep s). c \<in> set f"
proof (induction s)
  case Nil
  then show ?case by simp
next
  case (Cons a cs)
  obtain g gs where g: "split sep cs = g # gs"
    using split_not_Nil [of sep cs] by (cases "split sep cs") auto
  show ?case
  proof (cases "c \<in> set cs")
    case True
    with Cons g show ?thesis by auto
  next
    case False
    with Cons.prems have "a = c" by simp
    with Cons.prems g show ?thesis by simp
  qed
qed

lemma join_nonempty:
  assumes "x \<in> set xs" and "x \<noteq> []"
  shows "join sep xs \<noteq> []"
  using assms by (induction sep xs rule: join.induct) auto

section \<open>Claims about the Text Normalizer\<close>

text \<open>
  C5. The Normalizer is total: for a missing description and for any text (the empty
  text and a text of periods only included) the list \<^verbatim>\<open>desc\<close> that it builds has
  exactly one element.
\<close>

theorem normalizer_exactly_one_unit: "length (normalizer description) = 1"
  by (simp add: normalizer_def Let_def split: option.split)

text \<open>
  C7. A missing description is normalized to the one-character text \<^verbatim>\<open>_\<close>, and the
  two-sentence description of the scenario to its two sentences joined by one space,
  without periods.
\<close>

theorem normalizer_scenarios:
  "normalizer None = [''_''] \<and>
   normalizer (Some ''Replace aging boiler system. Includes HVAC upgrade.'') =
     [''Replace aging boiler system Includes HVAC upgrade'']"
  by (simp add: normalizer_def strip_def isspace_def)

text \<open>
  C9. For a description that is present, the normalized text contains no period: the
  split consumes every period, trimming only removes characters, and the fragments are
  joined with spaces.
\<close>

theorem normalizer_no_period: "CHR ''.'' \<notin> set (concat (normalizer (Some d)))"
proof -
  let ?desc = "map strip (filter (\<lambda>x. x \<noteq> []) (split (CHR ''.'') d))"
  have "CHR ''.'' \<notin> set x" if "x \<in> set ?desc" for x
  proof -
    from that obtain f where f: "f \<in> set (split (CHR ''.'') d)" and x: "x = strip f"
      by auto
    from f have "CHR ''.'' \<notin> set f" by (rule split_no_sep)
    with x set_strip [of f] show ?thesis by auto
  qed
  moreover have "set (join '' '' ?desc) \<subseteq> set '' '' \<union> \<Union> (set ` set ?desc)"
    by (rule set_join)
  ultimately have "CHR ''.'' \<notin> set (join '' '' ?desc)" by auto
  then show ?thesis by (simp add: normalizer_def Let_def)
qed

theorem normalizer_no_period_witness:
  "CHR ''.'' \<notin> set (concat (normalizer (Some ''a.b. .''))) \<and>
   normalizer (Some ''a.b. .'') = [''a b '']"
  using normalizer_no_period [of "''a.b. .''"]
  by (simp add: normalizer_def strip_def isspace_def)

text \<open>
  C4 (as amended). For a description that is present, the Normalizer splits it on the
  period (the fragments, joined by periods, give the description back, and no fragment
  holds a period), discards the fragments that are empty before trimming, trims the
  others, and joins them with one space into one text; with no fragment left the text
  is empty. A fragment of whitespace only is not discarded: it is kept as an empty
  text between its separators.
\<close>

theorem normalizer_algorithm:
  "\<exists>fragments.
     join ''.'' fragments = d \<and>
     (\<forall>f \<in> set fragments. CHR ''.'' \<notin> set f) \<and>
     normalizer (Some d) = [join '' '' (map strip (filter (\<lambda>f. f \<noteq> []) fragments))] \<and>
     (filter (\<lambda>f. f \<noteq> []) fragments = [] \<longrightarrow> normalizer (Some d) = [[]])"
proof -
  let ?fragments = "split (CHR ''.'') d"
  have "join ''.'' ?fragments = d"
    by (rule join_split)
  moreover have "\<forall>f \<in> set ?fragments. CHR ''.'' \<notin> set f"
    using split_no_sep by blast
  moreover have "normalizer (Some d) = [join '' '' (map strip (filter (\<lambda>f. f \<noteq> []) ?fragments))]"
    by (simp add: normalizer_def Let_def)
  moreover have "filter (\<lambda>f. f \<noteq> []) ?fragments = [] \<longrightarrow> normalizer (Some d) = [[]]"
    by (simp add: normalizer_def Let_def)
  ultimately show ?thesis by blast
qed

theorem normalizer_algorithm_witness:
  "(\<exists>fragments.
      join ''.'' fragments = ''Sewer. Phase 2. . '' \<and>
      normalizer (Some ''Sewer. Phase 2. . '') =
        [join '' '' (map strip (filter (\<lambda>f. f \<noteq> []) fragments))]) \<and>
   normalizer (Some ''Sewer. Phase 2. . '') = [''Sewer Phase 2  ''] \<and>
   normalizer (Some ''...'') = [[]]"
  using normalizer_algorithm [of "''Sewer. Phase 2. . ''"]
  by (auto simp: normalizer_def strip_def isspace_def)

theorem normalizer_whitespace_fragment_counterexample:
  "normalizer (Some ''a. '') = [''a ''] \<and> normalizer_as_specified ''a. '' = ''a''"
  by (simp add: normalizer_def normalizer_as_specified_def strip_def isspace_def)

text \<open>
  C6 (as amended). A missing description is normalized to the placeholder, which is
  not empty, and a description with at least one character that is neither a period
  nor whitespace is normalized to a text that is not empty.
\<close>

theorem normalizer_nonempty:
  assumes "description = None \<or>
     (\<exists>d c. description = Some d \<and> c \<in> set d \<and> c \<noteq> CHR ''.'' \<and> \<not> isspace c)"
  shows "\<exists>t. normalizer description = [t] \<and> t \<noteq> []"
  using assms
proof
  assume "description = None"
  then show ?thesis by (simp add: normalizer_def)
next
  assume "\<exists>d c. description = Some d \<and> c \<in> set d \<and> c \<noteq> CHR ''.'' \<and> \<not> isspace c"
  then obtain d c where d: "description = Some d" and c: "c \<in> set d" "c \<noteq> CHR ''.''" "\<not> isspace c"
    by blast
  from c obtain f where f: "f \<in> set (split (CHR ''.'') d)" "c \<in> set f"
    using in_some_fragment by blast
  let ?desc = "map strip (filter (\<lambda>x. x \<noteq> []) (split (CHR ''.'') d))"
  from f have "f \<noteq> []" by auto
  with f have "strip f \<in> set ?desc" by simp
  moreover have "strip f \<noteq> []"
    using strip_keeps [OF f(2) c(3)] by auto
  ultimately have "join '' '' ?desc \<noteq> []"
    by (rule join_nonempty)
  with d show ?thesis by (simp add: normalizer_def Let_def)
qed

theorem normalizer_nonempty_witness:
  "normalizer None = [''_''] \<and> ''_'' \<noteq> [] \<and>
   CHR ''x'' \<in> set ''.x'' \<and> \<not> isspace (CHR ''x'') \<and>
   (\<exists>t. normalizer (Some ''.x'') = [t] \<and> t \<noteq> [])"
proof -
  have present: "Some ''.x'' = None \<or>
      (\<exists>d c. Some ''.x'' = Some d \<and> c \<in> set d \<and> c \<noteq> CHR ''.'' \<and> \<not> isspace c)"
    by (rule disjI2, rule exI [of _ "''.x''"], rule exI [of _ "CHR ''x''"])
      (simp add: isspace_def)
  have missing: "None = None \<or>
      (\<exists>d c. None = Some d \<and> c \<in> set d \<and> c \<noteq> CHR ''.'' \<and> \<not> isspace c)"
    by simp
  from normalizer_nonempty [OF present] normalizer_nonempty [OF missing]
  show ?thesis by (simp add: normalizer_def isspace_def)
qed

theorem normalizer_empty_text_counterexample:
  "normalizer (Some '''') = [''''] \<and> normalizer (Some ''...'') = ['''']"
  by (simp add: normalizer_def)

section \<open>Claims about the Description Selector\<close>

lemma keep_first_subset: "set (keep_first seen col df) \<subseteq> set df"
  by (induction seen col df rule: keep_first.induct) auto

lemma keep_first_labels_distinct:
  "distinct (map fst df) \<Longrightarrow> distinct (map fst (keep_first seen col df))"
proof (induction seen col df rule: keep_first.induct)
  case (1 seen col)
  then show ?case by simp
next
  case (2 seen col label row df)
  have "label \<notin> fst ` set (keep_first s col df)" for s
    using 2(3) keep_first_subset [of s col df] by auto
  with 2 show ?case by auto
qed

lemma keep_first_compose:
  "fst ` set rows_seen \<subseteq> set pids_seen \<Longrightarrow>
   keep_first pids_seen fst (keep_first rows_seen (\<lambda>row. row) df) = keep_first pids_seen fst df"
proof (induction df arbitrary: rows_seen pids_seen)
  case Nil
  then show ?case by simp
next
  case (Cons a df)
  obtain label row where a: "a = (label, row)" by (cases a)
  show ?case
  proof (cases "row \<in> set rows_seen")
    case True
    with Cons.prems have "fst row \<in> set pids_seen" by auto
    with True a Cons show ?thesis by simp
  next
    case False
    show ?thesis
    proof (cases "fst row \<in> set pids_seen")
      case True
      have "fst ` set (row # rows_seen) \<subseteq> set pids_seen"
        using True Cons.prems by auto
      from Cons.IH [OF this] False True a show ?thesis by simp
    next
      case unseen: False
      have "fst ` set (row # rows_seen) \<subseteq> set (fst row # pids_seen)"
        using Cons.prems by auto
      from Cons.IH [OF this] False unseen a show ?thesis by simp
    qed
  qed
qed

lemma loc_sub_frame:
  "distinct (map fst df) \<Longrightarrow> set sub \<subseteq> set df \<Longrightarrow> loc df (map fst sub) = Inr sub"
proof (induction sub)
  case Nil
  then show ?case by simp
next
  case (Cons a sub)
  obtain label row where a: "a = (label, row)" by (cases a)
  with Cons.prems have mem: "(label, row) \<in> set df" by simp
  have "filter (\<lambda>(l, r). l = label) df = [(label, row)]"
    using Cons.prems(1) mem
  proof (induction df)
    case Nil
    then show ?case by simp
  next
    case (Cons b df)
    show ?case
    proof (cases "b = (label, row)")
      case True
      with Cons.prems have "label \<notin> fst ` set df" by auto
      then have "filter (\<lambda>(l, r). l = label) df = []"
        by (force simp: filter_empty_conv)
      with True show ?thesis by simp
    next
      case False
      with Cons.prems have "(label, row) \<in> set df" by simp
      then have "label \<in> fst ` set df" by force
      with Cons.prems have "fst b \<noteq> label" by auto
      with Cons \<open>(label, row) \<in> set df\<close> show ?thesis by (cases b) auto
    qed
  qed
  with Cons a show ?case by simp
qed

lemma distinct_range_index: "distinct (map fst (range_index rows))"
  by (simp add: range_index_def)

lemma rows_range_index: "map snd (range_index rows) = rows"
  by (simp add: range_index_def)

lemma description_selector_eq:
  "description_selector data = Inr (keep_first [] fst (range_index data))"
proof -
  let ?all = "keep_first [] (\<lambda>row. row) (range_index data)"
  have d: "distinct (map fst ?all)"
    by (rule keep_first_labels_distinct) (rule distinct_range_index)
  have "loc ?all (map fst (keep_first [] fst ?all)) = Inr (keep_first [] fst ?all)"
    using d keep_first_subset by (rule loc_sub_frame)
  moreover have "keep_first [] fst ?all = keep_first [] fst (range_index data)"
    by (rule keep_first_compose) simp
  ultimately show ?thesis
    by (simp add: description_selector_def drop_duplicates_def Let_def)
qed

lemma remdups_snoc:
  "remdups (xs @ [v]) = filter (\<lambda>x. x \<noteq> v) (remdups xs) @ [v]"
  by (induction xs) auto

lemma first_appearance_Cons:
  "rev (remdups (rev (v # vs))) = v # filter (\<lambda>x. x \<noteq> v) (rev (remdups (rev vs)))"
  by (simp add: remdups_snoc rev_filter)

lemma keep_first_first_appearance:
  "map (\<lambda>r. col (snd r)) (keep_first seen col df) =
   filter (\<lambda>v. v \<notin> set seen) (rev (remdups (rev (map (\<lambda>r. col (snd r)) df))))"
proof (induction seen col df rule: keep_first.induct)
  case (1 seen col)
  then show ?case by simp
next
  case (2 seen col label row df)
  let ?vs = "map (\<lambda>r. col (snd r)) df"
  let ?firsts = "rev (remdups (rev ?vs))"
  have r: "rev (remdups (rev (map (\<lambda>r. col (snd r)) ((label, row) # df)))) =
      col row # filter (\<lambda>x. x \<noteq> col row) ?firsts"
    using first_appearance_Cons [of "col row" ?vs] by simp
  show ?case
  proof (cases "col row \<in> set seen")
    case True
    have "filter (\<lambda>v. v \<notin> set seen) (filter (\<lambda>v. v \<noteq> col row) xs) = filter (\<lambda>v. v \<notin> set seen) xs" for xs
      using True by (induction xs) auto
    then have "filter (\<lambda>v. v \<notin> set seen) (col row # filter (\<lambda>x. x \<noteq> col row) ?firsts) =
        filter (\<lambda>v. v \<notin> set seen) ?firsts"
      using True by simp
    moreover have "map (\<lambda>r. col (snd r)) (keep_first seen col ((label, row) # df)) =
        filter (\<lambda>v. v \<notin> set seen) ?firsts"
      using True 2(1) by simp
    ultimately show ?thesis unfolding r by simp
  next
    case False
    have "filter (\<lambda>v. v \<notin> set seen) (filter (\<lambda>v. v \<noteq> col row) xs) = filter (\<lambda>v. v \<notin> set (col row # seen)) xs" for xs
      by (induction xs) auto
    then have "filter (\<lambda>v. v \<notin> set seen) (col row # filter (\<lambda>x. x \<noteq> col row) ?firsts) =
        col row # filter (\<lambda>v. v \<notin> set (col row # seen)) ?firsts"
      using False by simp
    moreover have "map (\<lambda>r. col (snd r)) (keep_first seen col ((label, row) # df)) =
        col row # filter (\<lambda>v. v \<notin> set (col row # seen)) ?firsts"
      using False 2(2) by simp
    ultimately show ?thesis unfolding r by simp
  qed
qed

lemma keep_first_map_of:
  "(label, k, d) \<in> set (keep_first seen fst df) \<Longrightarrow>
   k \<notin> set seen \<and> map_of (map snd df) k = Some d"
proof (induction df arbitrary: seen)
  case Nil
  then show ?case by simp
next
  case (Cons a df)
  obtain l k' d' where a: "a = (l, k', d')" by (cases a)
  show ?case
  proof (cases "k' \<in> set seen")
    case True
    with Cons.prems a have "(label, k, d) \<in> set (keep_first seen fst df)" by simp
    from Cons.IH [OF this] True a show ?thesis by auto
  next
    case False
    with Cons.prems a consider "(label, k, d) = (l, k', d')"
      | "(label, k, d) \<in> set (keep_first (k' # seen) fst df)" by auto
    then show ?thesis
    proof cases
      case 1
      with False a show ?thesis by simp
    next
      case 2
      from Cons.IH [OF this] a show ?thesis by auto
    qed
  qed
qed

text \<open>
  C2. For every sequence of records the Selector returns, without an error, one pair
  for each distinct identifier: the identifiers of the output are distinct, they are
  the identifiers of the input, each comes with the description of its first
  occurrence in the input (\<open>map_of\<close> reads the first pair with a given key), and they
  are in the order of their first appearance (reversing, keeping the last of each, and
  reversing again keeps the first of each). No records give no pairs.
\<close>

theorem selector_first_occurrences:
  fixes data :: "('k \<times> string option) list"
  shows "(\<exists>projects. description_selector data = Inr projects \<and>
       distinct (map fst (itertuples projects)) \<and>
       set (map fst (itertuples projects)) = set (map fst data) \<and>
       (\<forall>(pid, description) \<in> set (itertuples projects). map_of data pid = Some description) \<and>
       map fst (itertuples projects) = rev (remdups (rev (map fst data)))) \<and>
     description_selector ([] :: ('k \<times> string option) list) = Inr []"
proof -
  let ?p = "keep_first [] fst (range_index data)"
  have sel: "description_selector data = Inr ?p"
    by (rule description_selector_eq)
  have "map (\<lambda>r. fst (snd r)) ?p = rev (remdups (rev (map (\<lambda>r. fst (snd r)) (range_index data))))"
    using keep_first_first_appearance [of fst "[]" "range_index data"] by simp
  moreover have "map (\<lambda>r. fst (snd r)) df = map fst (map snd df)" for df :: "('k \<times> string option) frame"
    by simp
  ultimately have order: "map fst (itertuples ?p) = rev (remdups (rev (map fst data)))"
    by (simp only: itertuples_def rows_range_index)
  then have keys: "set (map fst (itertuples ?p)) = set (map fst data)"
    by (simp only: set_rev set_remdups)
  have dist: "distinct (map fst (itertuples ?p))"
    unfolding order by simp
  have "\<forall>(pid, description) \<in> set (itertuples ?p). map_of data pid = Some description"
    using keep_first_map_of [of _ _ _ "[]" "range_index data"]
    by (auto simp: itertuples_def rows_range_index)
  moreover have "description_selector ([] :: ('k \<times> string option) list) = Inr []"
    by (simp add: description_selector_eq range_index_def)
  ultimately show ?thesis
    using sel order keys dist by blast
qed

theorem selector_first_occurrences_witness:
  "description_selector
     [(3 :: int, Some ''Replace aging boiler system. Includes HVAC upgrade.''),
      (3, Some ''Replace aging boiler system. Includes HVAC upgrade.''),
      (7, None), (3, Some ''Boiler''), (7, Some ''Roof'')] =
   Inr [(0, 3, Some ''Replace aging boiler system. Includes HVAC upgrade.''), (2, 7, None)] \<and>
   map_of [(3 :: int, Some ''Replace aging boiler system. Includes HVAC upgrade.''),
      (3, Some ''Replace aging boiler system. Includes HVAC upgrade.''),
      (7, None), (3, Some ''Boiler''), (7, Some ''Roof'')] 7 = Some None \<and>
   rev (remdups (rev [3 :: int, 3, 7, 3, 7])) = [3, 7] \<and>
   description_selector ([] :: (int \<times> string option) list) = Inr []"
  using selector_first_occurrences
    [of "[(3 :: int, Some ''Replace aging boiler system. Includes HVAC upgrade.''),
      (3, Some ''Replace aging boiler system. Includes HVAC upgrade.''),
      (7, None), (3, Some ''Boiler''), (7, Some ''Roof'')]"]
  by (simp add: description_selector_def drop_duplicates_def range_index_def Let_def upt_rec)

section \<open>Claims about the Embedding Writer\<close>

lemma digits10_chars: "set (digits10 n) \<subseteq> set ''0123456789''"
proof (induction n rule: digits10.induct)
  case (1 n)
  have d: "''0123456789'' ! k \<in> set ''0123456789''" if "k < 10" for k
    using that nth_mem [of k "''0123456789''"] by simp
  show ?case
  proof (cases "n < 10")
    case True
    with d [of n] show ?thesis by (subst digits10.simps) simp
  next
    case False
    with 1 d [of "n mod 10"] show ?thesis by (subst digits10.simps) simp
  qed
qed

lemma digits10_not_Nil: "digits10 n \<noteq> []"
  by (subst digits10.simps) simp

lemma str_int_chars: "set (str_int i) \<subseteq> set ''-0123456789''"
proof -
  have d: "set (digits10 m) \<subseteq> set ''-0123456789''" for m
    using digits10_chars [of m] by (rule subset_trans) (rule set_subset_Cons)
  have m: "CHR ''-'' \<in> set ''-0123456789''"
    by (rule list.set_intros(1))
  show ?thesis
  proof (cases "i < 0")
    case True
    then have "str_int i = CHR ''-'' # digits10 (nat (- i))"
      by (simp add: str_int_def)
    with d [of "nat (- i)"] m show ?thesis
      by (simp only: list.set insert_subset)
  next
    case False
    with d [of "nat i"] show ?thesis by (simp only: str_int_def if_False)
  qed
qed

lemma plain_int_char:
  "c \<in> set ''-0123456789'' \<Longrightarrow> c \<notin> set [CHR '','', CHR 0x22, CHR 0x0D, CHR 0x0A]"
  by auto

lemma str_int_plain: "\<not> needs_quotes (str_int i)"
  using str_int_chars [of i] plain_int_char unfolding needs_quotes_def by blast

lemma decimal_char_plain:
  "c \<in> set ''0123456789+-.einfa'' \<Longrightarrow>
   c \<notin> set [CHR '','', CHR 0x22, CHR 0x0D, CHR 0x0A] \<and> c \<noteq> CHR ''['' \<and> c \<noteq> CHR '']''"
  by auto

lemma decimal_text_plain: "decimal_text t \<Longrightarrow> \<not> needs_quotes t"
  using decimal_char_plain unfolding decimal_text_def needs_quotes_def by blast

lemma decimal_text_no_bracket:
  "decimal_text t \<Longrightarrow> CHR ''['' \<notin> set t \<and> CHR '']'' \<notin> set t \<and> CHR 0x22 \<notin> set t"
  using decimal_char_plain unfolding decimal_text_def by fastforce

lemma remove_char_absent: "c \<notin> set s \<Longrightarrow> remove_char c s = s"
  by (auto simp: remove_char_def filter_id_conv)

lemma join_inherits:
  assumes "c \<notin> set sep" and "\<forall>x \<in> set xs. c \<notin> set x"
  shows "c \<notin> set (join sep xs)"
  using assms set_join [of sep xs] by auto

lemma sep_in_join: "2 \<le> length xs \<Longrightarrow> set sep \<subseteq> set (join sep xs)"
  by (induction sep xs rule: join.induct) auto

lemma format_embedding_join:
  assumes "\<forall>x. decimal_text (repr x)"
  shows "format_embedding repr emb = join '', '' (map repr emb)"
proof -
  let ?j = "join '', '' (map repr emb)"
  have o: "CHR ''['' \<notin> set ?j"
    using assms decimal_text_no_bracket by (intro join_inherits) auto
  have c: "CHR '']'' \<notin> set ?j"
    using assms decimal_text_no_bracket by (intro join_inherits) auto
  have "remove_char (CHR ''['') (str_list repr emb) = ?j @ '']''"
    using o by (simp add: str_list_def remove_char_def remove_char_absent [unfolded remove_char_def])
  then show ?thesis
    using c by (simp add: format_embedding_def remove_char_def remove_char_absent [unfolded remove_char_def])
qed

lemma needs_quotes_join:
  assumes "\<forall>x. decimal_text (repr x)"
  shows "needs_quotes (join '', '' (map repr emb)) \<longleftrightarrow> 2 \<le> length emb"
proof
  assume q: "needs_quotes (join '', '' (map repr emb))"
  show "2 \<le> length emb"
  proof (rule ccontr)
    assume "\<not> 2 \<le> length emb"
    then consider "emb = []" | x where "emb = [x]"
      by (cases emb) (auto simp: Suc_le_eq)
    then show False
    proof cases
      case 1
      with q show False by (simp add: needs_quotes_def)
    next
      case 2
      with q assms decimal_text_plain show False by auto
    qed
  qed
next
  assume "2 \<le> length emb"
  then have "set '', '' \<subseteq> set (join '', '' (map repr emb))"
    by (intro sep_in_join) simp
  then show "needs_quotes (join '', '' (map repr emb))"
    by (auto simp: needs_quotes_def)
qed

lemma quote_field_no_quote:
  assumes "CHR 0x22 \<notin> set field"
  shows "concat (map (\<lambda>c. if c = CHR 0x22 then [CHR 0x22, CHR 0x22] else [c]) field) = field"
  using assms by (induction field) auto

lemma write_record_format:
  assumes "\<forall>x. decimal_text (repr x)"
  shows "write_record repr (pid, emb) =
     str_int pid @ '','' @
     (if 2 \<le> length emb then [CHR 0x22] @ join '', '' (map repr emb) @ [CHR 0x22]
      else join '', '' (map repr emb)) @ [CHR 0x0D, CHR 0x0A]"
proof -
  let ?j = "join '', '' (map repr emb)"
  have "CHR 0x22 \<notin> set ?j"
    using assms decimal_text_no_bracket by (intro join_inherits) auto
  then have "quote_field ?j = (if 2 \<le> length emb then [CHR 0x22] @ ?j @ [CHR 0x22] else ?j)"
    using needs_quotes_join [OF assms, of emb] by (simp add: quote_field_def quote_field_no_quote)
  moreover have "quote_field (str_int pid) = str_int pid"
    by (simp add: quote_field_def str_int_plain)
  ultimately show ?thesis
    by (simp add: write_record_def writerow_def format_embedding_join [OF assms])
qed

lemma write_rows_appends:
  assumes "\<forall>desc. extract desc \<noteq> []"
  shows "write_rows extract repr projects csvfile =
     (None, csvfile @ concat (map (write_record repr)
        (map (\<lambda>(pid, description). (pid, hd (extract (normalizer description)))) projects)))"
proof (induction projects arbitrary: csvfile)
  case Nil
  then show ?case by simp
next
  case (Cons p projects)
  obtain pid description where p: "p = (pid, description)" by (cases p)
  obtain emb rest where e: "extract (normalizer description) = emb # rest"
    using assms by (cases "extract (normalizer description)") auto
  show ?case
    using Cons [of "csvfile @ write_record repr (pid, emb)"] p e by simp
qed

lemma create_embedding_csv_writer:
  assumes "\<forall>desc. extract desc \<noteq> []"
  shows "create_embedding_csv extract repr projects old =
     (None, embedding_writer repr
        (map (\<lambda>(pid, description). (pid, hd (extract (normalizer description)))) projects))"
  by (simp add: create_embedding_csv_def embedding_writer_def write_rows_appends [OF assms])

lemma scenario_repr_decimal: "\<forall>x. decimal_text (scenario_repr x)"
proof
  fix x show "decimal_text (scenario_repr x)"
    by (cases x) (simp_all add: decimal_text_def)
qed

text \<open>
  C3 (as amended). When the components are rendered as decimal texts, the Writer emits
  the header row \<^verbatim>\<open>PID,embedding\<close> and then one row per record in input order, every
  row ended by CR LF. A row is the identifier, a comma, and the embedding field: the
  texts of the components separated by a comma and a space, without brackets, and
  enclosed in double quotes when the vector has two components or more. For the
  records of the scenario the file holds the rows \<^verbatim>\<open>PID,embedding\<close>,
  \<^verbatim>\<open>3,"0.1, -2.5"\<close> and \<^verbatim>\<open>7,1.0\<close>, each followed by CR LF.
\<close>

theorem writer_wire_format:
  assumes "\<forall>x. decimal_text (repr x)"
  shows "embedding_writer repr records =
     ''PID,embedding'' @ [CHR 0x0D, CHR 0x0A] @
     concat (map (\<lambda>(pid, emb).
        str_int pid @ '','' @
        (if 2 \<le> length emb then [CHR 0x22] @ join '', '' (map repr emb) @ [CHR 0x22]
         else join '', '' (map repr emb)) @ [CHR 0x0D, CHR 0x0A]) records) \<and>
     embedding_writer scenario_repr [(3, [Tenth, MinusTwoAndHalf]), (7, [One])] =
       ''PID,embedding'' @ [CHR 0x0D, CHR 0x0A] @
       ''3,'' @ [CHR 0x22] @ ''0.1, -2.5'' @ [CHR 0x22] @ [CHR 0x0D, CHR 0x0A] @
       ''7,1.0'' @ [CHR 0x0D, CHR 0x0A]"
proof
  have rows: "map (write_record repr) records = map (\<lambda>(pid, emb).
        str_int pid @ '','' @
        (if 2 \<le> length emb then [CHR 0x22] @ join '', '' (map repr emb) @ [CHR 0x22]
         else join '', '' (map repr emb)) @ [CHR 0x0D, CHR 0x0A]) records"
    using write_record_format [OF assms] by (intro map_cong) auto
  have header: "writerow [''PID'', ''embedding''] = ''PID,embedding'' @ [CHR 0x0D, CHR 0x0A]"
    by (simp add: writerow_def quote_field_def needs_quotes_def)
  show "embedding_writer repr records =
     ''PID,embedding'' @ [CHR 0x0D, CHR 0x0A] @
     concat (map (\<lambda>(pid, emb).
        str_int pid @ '','' @
        (if 2 \<le> length emb then [CHR 0x22] @ join '', '' (map repr emb) @ [CHR 0x22]
         else join '', '' (map repr emb)) @ [CHR 0x0D, CHR 0x0A]) records)"
    by (simp only: embedding_writer_def rows header append_assoc)
next
  show "embedding_writer scenario_repr [(3, [Tenth, MinusTwoAndHalf]), (7, [One])] =
       ''PID,embedding'' @ [CHR 0x0D, CHR 0x0A] @
       ''3,'' @ [CHR 0x22] @ ''0.1, -2.5'' @ [CHR 0x22] @ [CHR 0x0D, CHR 0x0A] @
       ''7,1.0'' @ [CHR 0x0D, CHR 0x0A]"
    by code_simp
qed

theorem writer_wire_format_witness:
  "decimal_text (scenario_repr Tenth) \<and> decimal_text (scenario_repr MinusTwoAndHalf) \<and>
   decimal_text (scenario_repr One) \<and>
   embedding_writer scenario_repr [(-12, [One, One, Tenth]), (40, [])] =
     ''PID,embedding'' @ [CHR 0x0D, CHR 0x0A] @
     ''-12,'' @ [CHR 0x22] @ ''1.0, 1.0, 0.1'' @ [CHR 0x22] @ [CHR 0x0D, CHR 0x0A] @
     ''40,'' @ [CHR 0x0D, CHR 0x0A]"
  using writer_wire_format [OF scenario_repr_decimal, of "[(-12, [One, One, Tenth]), (40, [])]"]
  by (simp add: decimal_text_def) code_simp

theorem writer_scenario_counterexample:
  "embedding_writer scenario_repr [(3, [Tenth, MinusTwoAndHalf]), (7, [One])] =
     ''PID,embedding'' @ [CHR 0x0D, CHR 0x0A] @
     ''3,'' @ [CHR 0x22] @ ''0.1, -2.5'' @ [CHR 0x22] @ [CHR 0x0D, CHR 0x0A] @
     ''7,1.0'' @ [CHR 0x0D, CHR 0x0A] \<and>
   embedding_writer scenario_repr [(3, [Tenth, MinusTwoAndHalf]), (7, [One])] \<noteq>
     ''PID,embedding'' @ [CHR 0x0A] @ ''3,0.1,-2.5'' @ [CHR 0x0A] @ ''7,1.0'' @ [CHR 0x0A]"
  by code_simp

text \<open>
  C10. Two runs of the selection, normalization and writing on equal input records,
  with the same embedding provider and the same rendering of numbers, leave the same
  content in the output file and end the same way, whatever the file held before each
  run.
\<close>

theorem pipeline_deterministic:
  "data = data' \<Longrightarrow> pipeline extract repr data old = pipeline extract repr data' old'"
  by (simp add: pipeline_def description_selector_eq create_embedding_csv_def)

theorem pipeline_deterministic_witness:
  "pipeline scenario_extract scenario_repr
     [(3, Some ''Replace aging boiler system. Includes HVAC upgrade.''),
      (3, Some ''Replace aging boiler system. Includes HVAC upgrade.''), (7, None)]
     ''PID,embedding'' =
   pipeline scenario_extract scenario_repr
     [(3, Some ''Replace aging boiler system. Includes HVAC upgrade.''),
      (3, Some ''Replace aging boiler system. Includes HVAC upgrade.''), (7, None)]
     [] \<and>
   pipeline scenario_extract scenario_repr
     [(3, Some ''Replace aging boiler system. Includes HVAC upgrade.''),
      (3, Some ''Replace aging boiler system. Includes HVAC upgrade.''), (7, None)]
     [] =
   (None, ''PID,embedding'' @ [CHR 0x0D, CHR 0x0A] @
     ''3,'' @ [CHR 0x22] @ ''0.1, -2.5'' @ [CHR 0x22] @ [CHR 0x0D, CHR 0x0A] @
     ''7,1.0'' @ [CHR 0x0D, CHR 0x0A])"
proof -
  let ?data = "[(3 :: int, Some ''Replace aging boiler system. Includes HVAC upgrade.''),
      (3, Some ''Replace aging boiler system. Includes HVAC upgrade.''), (7, None)]"
  have same: "?data = ?data" by (rule refl)
  have run: "pipeline scenario_extract scenario_repr ?data [] =
   (None, ''PID,embedding'' @ [CHR 0x0D, CHR 0x0A] @
     ''3,'' @ [CHR 0x22] @ ''0.1, -2.5'' @ [CHR 0x22] @ [CHR 0x0D, CHR 0x0A] @
     ''7,1.0'' @ [CHR 0x0D, CHR 0x0A])"
    by code_simp
  from pipeline_deterministic [OF same, of scenario_extract scenario_repr "''PID,embedding''" "[]"] run
  show ?thesis by (rule conjI)
qed

section \<open>Claims about the Embedding Reader\<close>

lemma in_field_run:
  assumes "\<forall>c \<in> set t. c \<noteq> CHR 0x0A \<and> c \<noteq> CHR 0x0D \<and> c \<noteq> CHR '',''"
  shows "foldl tokenize_step (InField, field, line, lines) t = (InField, field @ t, line, lines)"
  using assms by (induction t arbitrary: field) (simp_all add: in_field_def)

lemma in_quoted_field_run:
  assumes "CHR 0x22 \<notin> set t"
  shows "foldl tokenize_step (InQuotedField, field, line, lines) t =
     (InQuotedField, field @ t, line, lines)"
  using assms by (induction t arbitrary: field) auto

lemma first_field_run:
  assumes first: "c \<notin> set [CHR 0x0A, CHR 0x0D, CHR '' '', CHR 0x09, CHR 0x22, CHR '','']"
    and plain: "\<forall>c \<in> set a. c \<noteq> CHR 0x0A \<and> c \<noteq> CHR 0x0D \<and> c \<noteq> CHR '',''"
  shows "foldl tokenize_step (StartRecord, field, line, lines) ((c # a) @ '','') =
     (StartField, [], [c # a], lines)"
proof -
  have 1: "tokenize_step (StartRecord, field, line, lines) c = (InField, [c], [], lines)"
    using first by (simp add: start_record_def start_field_def)
  have 2: "foldl tokenize_step (InField, [c], [], lines) a = (InField, c # a, [], lines)"
    using in_field_run [OF plain, of "[c]" "[]" lines] by simp
  have 3: "tokenize_step (InField, c # a, [], lines) (CHR '','') = (StartField, [], [c # a], lines)"
    by (simp add: in_field_def)
  show ?thesis
    by (simp only: foldl_append foldl_Cons foldl_Nil append_Cons append_Nil 1 2 3)
qed

lemma quoted_field_run:
  assumes body: "CHR 0x22 \<notin> set b"
  shows "foldl tokenize_step (StartField, [], line, lines)
       ([CHR 0x22] @ b @ [CHR 0x22] @ [CHR 0x0D, CHR 0x0A]) =
     (StartRecord, [], [], lines @ [line @ [b]])"
proof -
  have 4: "tokenize_step (StartField, [], line, lines) (CHR 0x22) = (InQuotedField, [], line, lines)"
    by (simp add: start_field_def)
  have 5: "foldl tokenize_step (InQuotedField, [], line, lines) b = (InQuotedField, b, line, lines)"
    using in_quoted_field_run [OF body, of "[]"] by simp
  have 6: "tokenize_step (tokenize_step (tokenize_step
        (InQuotedField, b, line, lines) (CHR 0x22)) (CHR 0x0D)) (CHR 0x0A) =
      (StartRecord, [], [], lines @ [line @ [b]])"
    by (simp add: in_field_def)
  show ?thesis
    by (simp only: foldl_append foldl_Cons foldl_Nil append_Cons append_Nil 4 5 6)
qed

lemma plain_field_run:
  assumes ne: "b \<noteq> []"
    and plain: "\<forall>c \<in> set b. c \<notin> set [CHR 0x0A, CHR 0x0D, CHR 0x22, CHR '','']"
  shows "foldl tokenize_step (StartField, [], line, lines) (b @ [CHR 0x0D, CHR 0x0A]) =
     (StartRecord, [], [], lines @ [line @ [b]])"
proof -
  obtain c b' where b: "b = c # b'" using ne by (cases b) auto
  have 1: "tokenize_step (StartField, [], line, lines) c = (InField, [c], line, lines)"
    using plain b by (simp add: start_field_def)
  have "\<forall>c \<in> set b'. c \<noteq> CHR 0x0A \<and> c \<noteq> CHR 0x0D \<and> c \<noteq> CHR '',''"
    using plain b by auto
  then have 2: "foldl tokenize_step (InField, [c], line, lines) b' = (InField, c # b', line, lines)"
    using in_field_run [of b' "[c]" line lines] by simp
  have 3: "tokenize_step (tokenize_step (InField, c # b', line, lines) (CHR 0x0D)) (CHR 0x0A) =
      (StartRecord, [], [], lines @ [line @ [c # b']])"
    by (simp add: in_field_def)
  show ?thesis
    unfolding b by (simp only: foldl_append foldl_Cons foldl_Nil append_Cons append_Nil 1 2 3)
qed

lemma str_int_Cons:
  "\<exists>c a. str_int i = c # a \<and>
     c \<notin> set [CHR 0x0A, CHR 0x0D, CHR '' '', CHR 0x09, CHR 0x22, CHR '',''] \<and>
     (\<forall>c \<in> set a. c \<noteq> CHR 0x0A \<and> c \<noteq> CHR 0x0D \<and> c \<noteq> CHR '','')"
proof -
  have ne: "str_int i \<noteq> []"
    using digits10_not_Nil by (simp add: str_int_def)
  then obtain c a where ca: "str_int i = c # a" by (cases "str_int i") auto
  have plain: "x \<in> set ''-0123456789'' \<Longrightarrow>
      x \<notin> set [CHR 0x0A, CHR 0x0D, CHR '' '', CHR 0x09, CHR 0x22, CHR '','']" for x
    by auto
  have "\<forall>x \<in> set (c # a). x \<notin> set [CHR 0x0A, CHR 0x0D, CHR '' '', CHR 0x09, CHR 0x22, CHR '','']"
    using str_int_chars [of i] plain unfolding ca by blast
  then show ?thesis using ca by auto
qed

lemma record_run:
  assumes repr: "\<forall>x. decimal_text (repr x)" and ne: "emb \<noteq> []"
  shows "foldl tokenize_step (StartRecord, field, line, lines) (write_record repr (pid, emb)) =
     (StartRecord, [], [], lines @ [[str_int pid, join '', '' (map repr emb)]])"
proof -
  obtain c a where ca: "str_int pid = c # a"
    and first: "c \<notin> set [CHR 0x0A, CHR 0x0D, CHR '' '', CHR 0x09, CHR 0x22, CHR '','']"
    and plain: "\<forall>c \<in> set a. c \<noteq> CHR 0x0A \<and> c \<noteq> CHR 0x0D \<and> c \<noteq> CHR '',''"
    using str_int_Cons by blast
  let ?b = "join '', '' (map repr emb)"
  define head where "head = (c # a) @ '',''"
  have start: "foldl tokenize_step (StartRecord, field, line, lines) head =
      (StartField, [], [c # a], lines)"
    unfolding head_def by (rule first_field_run [OF first plain])
  have "\<exists>rest. write_record repr (pid, emb) = head @ rest \<and>
      foldl tokenize_step (StartField, [], [c # a], lines) rest =
        (StartRecord, [], [], lines @ [[c # a] @ [?b]])"
  proof (cases "2 \<le> length emb")
    case True
    have body: "CHR 0x22 \<notin> set ?b"
      using repr decimal_text_no_bracket by (intro join_inherits) auto
    have "write_record repr (pid, emb) =
        head @ ([CHR 0x22] @ ?b @ [CHR 0x22] @ [CHR 0x0D, CHR 0x0A])"
      using write_record_format [OF repr, of pid emb] True ca by (simp add: head_def)
    with quoted_field_run [OF body, of "[c # a]" lines] show ?thesis by blast
  next
    case False
    with ne obtain x where x: "emb = [x]"
      by (cases emb) (auto simp: Suc_le_eq)
    have d: "decimal_text (repr x)" using repr by simp
    then have b1: "repr x \<noteq> []" by (simp add: decimal_text_def)
    have b2: "\<forall>c \<in> set (repr x). c \<notin> set [CHR 0x0A, CHR 0x0D, CHR 0x22, CHR '','']"
      using d decimal_char_plain unfolding decimal_text_def by fastforce
    have "write_record repr (pid, emb) = head @ (repr x @ [CHR 0x0D, CHR 0x0A])"
      using write_record_format [OF repr, of pid emb] x ca by (simp add: head_def)
    moreover have "?b = repr x" using x by simp
    ultimately show ?thesis
      using plain_field_run [OF b1 b2, of "[c # a]" lines] by auto
  qed
  then obtain rest where w: "write_record repr (pid, emb) = head @ rest"
    and r: "foldl tokenize_step (StartField, [], [c # a], lines) rest =
        (StartRecord, [], [], lines @ [[c # a] @ [?b]])"
    by blast
  have "foldl tokenize_step (StartRecord, field, line, lines) (head @ rest) =
      foldl tokenize_step (foldl tokenize_step (StartRecord, field, line, lines) head) rest"
    by (rule foldl_append)
  also have "\<dots> = (StartRecord, [], [], lines @ [[c # a] @ [?b]])"
    unfolding start by (rule r)
  finally show ?thesis
    unfolding w ca by simp
qed

lemma records_run:
  assumes repr: "\<forall>x. decimal_text (repr x)"
    and ne: "\<forall>(pid, emb) \<in> set records. emb \<noteq> []"
  shows "foldl tokenize_step (StartRecord, [], [], lines) (concat (map (write_record repr) records)) =
     (StartRecord, [], [], lines @ map (\<lambda>(pid, emb). [str_int pid, join '', '' (map repr emb)]) records)"
  using ne
proof (induction records arbitrary: lines)
  case Nil
  then show ?case by simp
next
  case (Cons r records)
  obtain pid emb where r: "r = (pid, emb)" by (cases r)
  with Cons.prems have "emb \<noteq> []" by simp
  from record_run [OF repr this] Cons r show ?case by simp
qed

lemma header_run:
  "foldl tokenize_step (StartRecord, [], [], []) (writerow [''PID'', ''embedding'']) =
     (StartRecord, [], [], [[''PID'', ''embedding'']])"
  by code_simp

lemma tokenize_writer:
  assumes repr: "\<forall>x. decimal_text (repr x)"
    and ne: "\<forall>(pid, emb) \<in> set records. emb \<noteq> []"
  shows "tokenize (embedding_writer repr records) =
     Inr ([''PID'', ''embedding''] #
          map (\<lambda>(pid, emb). [str_int pid, join '', '' (map repr emb)]) records)"
  using records_run [OF repr ne, of "[[''PID'', ''embedding'']]"]
  by (simp add: tokenize_def embedding_writer_def header_run)

lemma digit_code: "n < 10 \<Longrightarrow> of_char (''0123456789'' ! n) = (48 + int n)"
proof -
  have "list_all (\<lambda>n. of_char (''0123456789'' ! n) = (48 + int n)) [0..<10]"
    by code_simp
  moreover assume "n < 10"
  ultimately show ?thesis by (simp add: list_all_iff)
qed

lemma digits_value_snoc: "digits_value (ds @ [c]) = 10 * digits_value ds + (of_char c - 48)"
  by (simp add: digits_value_def)

lemma digits_value_digits10: "digits_value (digits10 n) = int n"
proof (induction n rule: digits10.induct)
  case (1 n)
  show ?case
  proof (cases "n < 10")
    case True
    then show ?thesis
      by (subst digits10.simps) (simp add: digits_value_def digit_code)
  next
    case False
    then have "digits_value (digits10 n) =
        10 * digits_value (digits10 (n div 10)) + (of_char (''0123456789'' ! (n mod 10)) - 48)"
      by (subst digits10.simps) (simp add: digits_value_snoc)
    with False 1 show ?thesis by (simp add: digit_code zdiv_int zmod_int)
  qed
qed

lemma digits10_digits: "\<forall>c \<in> set (digits10 n). is_digit c"
  using digits10_chars [of n] by (auto simp only: is_digit_def)

lemma dropWhile_none: "\<forall>c \<in> set s. \<not> P c \<Longrightarrow> dropWhile P s = s"
  by (cases s) auto

lemma int_char_not_space: "c \<in> set ''-0123456789'' \<Longrightarrow> \<not> is_ascii_space c"
  unfolding is_ascii_space_def by auto

lemma digit_not_sign: "c \<in> set ''0123456789'' \<Longrightarrow> c \<noteq> CHR ''-'' \<and> c \<noteq> CHR ''+''"
  by auto

lemma read_int64_unfold:
  assumes "dropWhile is_ascii_space s = p"
    and "q = (if p \<noteq> [] \<and> (hd p = CHR ''-'' \<or> hd p = CHR ''+'') then tl p else p)"
    and "takeWhile is_digit q = ds"
    and "v = (if p \<noteq> [] \<and> hd p = CHR ''-'' then - digits_value ds else digits_value ds)"
  shows "read_int64 s =
    (if ds = [] then Invalid
     else if v < - (2 ^ 63) \<or> 2 ^ 63 \<le> v then Overflow
     else if dropWhile is_ascii_space (dropWhile is_digit q) \<noteq> [] then Invalid
     else IntOk v)"
  unfolding read_int64_def Let_def assms(1) assms(2) [symmetric] assms(3) assms(4) [symmetric]
  by (rule refl)

lemma read_int64_str_int:
  assumes "- (2 ^ 63) \<le> i" and "i < 2 ^ 63"
  shows "read_int64 (str_int i) = IntOk i"
proof -
  have ns: "\<forall>c \<in> set (str_int i). \<not> is_ascii_space c"
    using str_int_chars [of i] int_char_not_space by blast
  then have p: "dropWhile is_ascii_space (str_int i) = str_int i"
    by (rule dropWhile_none)
  define n where "n = (if i < 0 then nat (- i) else nat i)"
  have q: "digits10 n =
      (if str_int i \<noteq> [] \<and> (hd (str_int i) = CHR ''-'' \<or> hd (str_int i) = CHR ''+'')
       then tl (str_int i) else str_int i)"
  proof (cases "i < 0")
    case True
    then show ?thesis by (simp add: str_int_def n_def)
  next
    case False
    have "hd (digits10 (nat i)) \<in> set ''0123456789''"
      using digits10_chars [of "nat i"] digits10_not_Nil [of "nat i"] hd_in_set by blast
    then have "hd (digits10 (nat i)) \<noteq> CHR ''-'' \<and> hd (digits10 (nat i)) \<noteq> CHR ''+''"
      by (rule digit_not_sign)
    with False show ?thesis by (simp add: str_int_def n_def)
  qed
  have ds: "takeWhile is_digit (digits10 n) = digits10 n"
    using digits10_digits [of n] by (simp add: takeWhile_eq_all_conv)
  have dr: "dropWhile is_digit (digits10 n) = []"
    using digits10_digits [of n] by simp
  have v: "i = (if str_int i \<noteq> [] \<and> hd (str_int i) = CHR ''-''
      then - digits_value (digits10 n) else digits_value (digits10 n))"
  proof (cases "i < 0")
    case True
    then show ?thesis by (simp add: str_int_def n_def digits_value_digits10)
  next
    case False
    have "hd (digits10 (nat i)) \<in> set ''0123456789''"
      using digits10_chars [of "nat i"] digits10_not_Nil [of "nat i"] hd_in_set by blast
    then have "hd (digits10 (nat i)) \<noteq> CHR ''-''"
      using digit_not_sign by blast
    with False show ?thesis by (simp add: str_int_def n_def digits_value_digits10)
  qed
  show ?thesis
    unfolding read_int64_unfold [OF p q ds v] dr
    using assms digits10_not_Nil [of n] by simp
qed

lemma na_not_integer: "f \<in> set na_values \<Longrightarrow> read_int64 f = Invalid"
proof -
  have "list_all (\<lambda>s. read_int64 s = Invalid) na_values"
    by code_simp
  then show "f \<in> set na_values \<Longrightarrow> read_int64 f = Invalid"
    by (simp add: list_all_iff)
qed

lemma str_int_not_na:
  assumes "- (2 ^ 63) \<le> i" and "i < 2 ^ 63"
  shows "str_int i \<notin> set na_values"
  using read_int64_str_int [OF assms] na_not_integer [of "str_int i"] by auto

lemma infer_column_int:
  assumes "\<forall>i \<in> set pids. - (2 ^ 63) \<le> i \<and> i < 2 ^ 63"
  shows "infer_column pd_number (map str_int pids) = map IntCell pids"
proof -
  have rd: "\<forall>i \<in> set pids. read_int64 (str_int i) = IntOk i"
    using assms read_int64_str_int by blast
  have na: "\<forall>i \<in> set pids. str_int i \<notin> set na_values"
    using assms str_int_not_na by blast
  have "scan_column read_int64 (map str_int pids) = AllRead"
    using rd na by (induction pids) simp_all
  moreover have "\<not> list_ex (\<lambda>f. f \<in> set na_values) (map str_int pids)"
    using na by (simp add: list_ex_iff)
  moreover have "int_cells read_int64 (map str_int pids) = map IntCell pids"
    using rd by (simp add: int_cells_def)
  ultimately show ?thesis
    by (simp add: infer_column_def)
qed

lemma integer_text_chars:
  assumes p: "p = dropWhile is_ascii_space s"
    and q: "q = tl p \<and> p \<noteq> [] \<and> (hd p = CHR ''-'' \<or> hd p = CHR ''+'') \<or> q = p"
    and rest: "dropWhile is_ascii_space (dropWhile is_digit q) = []"
  shows "\<forall>c \<in> set s. is_ascii_space c \<or> is_digit c \<or> c = CHR ''-'' \<or> c = CHR ''+''"
proof
  fix c assume c: "c \<in> set s"
  have s: "s = takeWhile is_ascii_space s @ p"
    unfolding p by simp
  have qq: "q = takeWhile is_digit q @ dropWhile is_digit q"
    by simp
  have tail: "\<forall>x \<in> set (dropWhile is_digit q). is_ascii_space x"
    using rest by (simp add: dropWhile_eq_Nil_conv)
  have inq: "x \<in> set q \<Longrightarrow> is_ascii_space x \<or> is_digit x" for x
  proof -
    assume "x \<in> set q"
    then have "x \<in> set (takeWhile is_digit q) \<or> x \<in> set (dropWhile is_digit q)"
      using qq by (metis Un_iff set_append)
    then show ?thesis
      using tail set_takeWhileD by fastforce
  qed
  have inp: "x \<in> set p \<Longrightarrow> is_ascii_space x \<or> is_digit x \<or> x = CHR ''-'' \<or> x = CHR ''+''" for x
  proof -
    assume x: "x \<in> set p"
    from q show ?thesis
    proof
      assume a: "q = tl p \<and> p \<noteq> [] \<and> (hd p = CHR ''-'' \<or> hd p = CHR ''+'')"
      then have "p = hd p # q" by simp
      with x have "x = hd p \<or> x \<in> set q" by (metis set_ConsD)
      with a inq show ?thesis by auto
    next
      assume "q = p"
      with x inq show ?thesis by auto
    qed
  qed
  from c s have "c \<in> set (takeWhile is_ascii_space s) \<or> c \<in> set p"
    by (metis Un_iff set_append)
  then show "is_ascii_space c \<or> is_digit c \<or> c = CHR ''-'' \<or> c = CHR ''+''"
    using inp set_takeWhileD by fastforce
qed

lemma comma_not_integer_char:
  "\<not> (is_ascii_space (CHR '','') \<or> is_digit (CHR '','') \<or> CHR '','' = CHR ''-'' \<or> CHR '','' = CHR ''+'')"
  by (simp add: is_ascii_space_def is_digit_def)

lemma int_ok_rest:
  "(if a then Invalid else if b then Overflow else if c then Invalid else IntOk v) = IntOk v' \<Longrightarrow> \<not> c"
  by (simp split: if_splits)

lemma int_never_negative:
  "(if a then Invalid else if b then Overflow else if c then Invalid else IntOk v) \<noteq> Negative"
  by simp

lemma read_int64_comma:
  assumes "CHR '','' \<in> set s"
  shows "read_int64 s \<noteq> IntOk v" and "read_int64 s \<noteq> Negative"
proof -
  define p where "p = dropWhile is_ascii_space s"
  define q where "q = (if p \<noteq> [] \<and> (hd p = CHR ''-'' \<or> hd p = CHR ''+'') then tl p else p)"
  define ds where "ds = takeWhile is_digit q"
  define w where "w = (if p \<noteq> [] \<and> hd p = CHR ''-'' then - digits_value ds else digits_value ds)"
  have r: "read_int64 s =
    (if ds = [] then Invalid
     else if w < - (2 ^ 63) \<or> 2 ^ 63 \<le> w then Overflow
     else if dropWhile is_ascii_space (dropWhile is_digit q) \<noteq> [] then Invalid
     else IntOk w)"
    by (rule read_int64_unfold) (simp_all only: p_def q_def ds_def w_def)
  show "read_int64 s \<noteq> Negative"
    unfolding r using int_never_negative by blast
  show "read_int64 s \<noteq> IntOk v"
  proof
    assume "read_int64 s = IntOk v"
    then have rest: "dropWhile is_ascii_space (dropWhile is_digit q) = []"
      unfolding r using int_ok_rest by blast
    have "q = tl p \<and> p \<noteq> [] \<and> (hd p = CHR ''-'' \<or> hd p = CHR ''+'') \<or> q = p"
      unfolding q_def by simp
    from integer_text_chars [OF p_def this rest] assms comma_not_integer_char
    show False by blast
  qed
qed

lemma uint_ok_rest:
  "(if n then Negative else if a then Invalid else if b then Overflow else if c then Invalid
    else IntOk v) = IntOk v' \<Longrightarrow> \<not> c"
  by (simp split: if_splits)

lemma read_uint64_comma:
  assumes "CHR '','' \<in> set s"
  shows "read_uint64 s \<noteq> IntOk v"
proof
  define p where "p = dropWhile is_ascii_space s"
  define q where "q = (if p \<noteq> [] \<and> hd p = CHR ''+'' then tl p else p)"
  assume "read_uint64 s = IntOk v"
  then have "(if p \<noteq> [] \<and> hd p = CHR ''-'' then Negative
      else if takeWhile is_digit q = [] then Invalid
      else if 2 ^ 64 \<le> digits_value (takeWhile is_digit q) then Overflow
      else if dropWhile is_ascii_space (dropWhile is_digit q) \<noteq> [] then Invalid
      else IntOk (digits_value (takeWhile is_digit q))) = IntOk v"
    unfolding read_uint64_def Let_def p_def q_def .
  then have rest: "dropWhile is_ascii_space (dropWhile is_digit q) = []"
    using uint_ok_rest by blast
  have "q = tl p \<and> p \<noteq> [] \<and> (hd p = CHR ''-'' \<or> hd p = CHR ''+'') \<or> q = p"
    unfolding q_def by simp
  from integer_text_chars [OF p_def this rest] assms comma_not_integer_char
  show False by blast
qed

lemma comma_not_na: "CHR '','' \<in> set s \<Longrightarrow> s \<notin> set na_values"
  unfolding na_values_def by auto

lemma ascii_upper_comma: "ascii_upper (CHR '','') = CHR '',''"
  by (simp add: ascii_upper_def)

lemma comma_not_bool: "CHR '','' \<in> set s \<Longrightarrow> pd_bool s = None"
proof -
  assume "CHR '','' \<in> set s"
  then have "ascii_upper (CHR '','') \<in> set (map ascii_upper s)"
    by (metis image_eqI list.set_map)
  then have m: "CHR '','' \<in> set (map ascii_upper s)"
    by (simp only: ascii_upper_comma)
  have "CHR '','' \<notin> set ''TRUE''" and "CHR '','' \<notin> set ''FALSE''"
    by simp_all
  with m have "map ascii_upper s \<noteq> ''TRUE'' \<and> map ascii_upper s \<noteq> ''FALSE''"
    by metis
  then show ?thesis by (simp only: pd_bool_def if_False)
qed

lemma scan_stops:
  assumes "f \<in> set fields" and "f \<notin> set na_values"
    and "\<forall>v. rd f \<noteq> IntOk v" and "rd f \<noteq> Negative"
  shows "scan_column rd fields \<noteq> AllRead"
  using assms(1)
proof (induction fields)
  case Nil
  then show ?case by simp
next
  case (Cons g fields)
  show ?case
  proof (cases "g = f")
    case True
    with assms(2,3,4) show ?thesis by (cases "rd f") auto
  next
    case False
    with Cons have "scan_column rd fields \<noteq> AllRead" by simp
    then show ?thesis by (cases "rd g") auto
  qed
qed

lemma text_cells_no_na: "\<forall>f \<in> set fields. f \<notin> set na_values \<Longrightarrow> text_cells fields = map StrCell fields"
  by (simp add: text_cells_def)

lemma later_types_text:
  assumes num: "\<forall>s. CHR '','' \<in> set s \<longrightarrow> pd_number s = None"
    and f: "f \<in> set fields" "CHR '','' \<in> set f"
  shows "later_types pd_number fields = text_cells fields"
proof -
  have na: "f \<notin> set na_values" using f(2) by (rule comma_not_na)
  have "\<not> (f \<in> set na_values \<or> pd_number f \<noteq> None)"
    using na num f(2) by simp
  then have 1: "\<not> list_all (\<lambda>f. f \<in> set na_values \<or> pd_number f \<noteq> None) fields"
    using f(1) unfolding list_all_iff by blast
  have "\<not> (f \<in> set na_values \<or> pd_bool f \<noteq> None)"
    using na comma_not_bool [OF f(2)] by simp
  then have 2: "\<not> list_all (\<lambda>f. f \<in> set na_values \<or> pd_bool f \<noteq> None) fields"
    using f(1) unfolding list_all_iff by blast
  from 1 2 show ?thesis by (simp only: later_types_def if_False)
qed

lemma infer_column_text:
  assumes num: "\<forall>s. CHR '','' \<in> set s \<longrightarrow> pd_number s = None"
    and f: "f \<in> set fields" "CHR '','' \<in> set f"
    and na: "\<forall>g \<in> set fields. g \<notin> set na_values"
  shows "infer_column pd_number fields = map StrCell fields"
proof -
  have fna: "f \<notin> set na_values" using na f(1) by simp
  have later: "later_types pd_number fields = map StrCell fields"
    using later_types_text [OF num f] text_cells_no_na [OF na] by simp
  have cells: "text_cells fields = (map StrCell fields :: 'a cell list)"
    by (rule text_cells_no_na [OF na])
  have s64: "scan_column read_int64 fields \<noteq> AllRead"
    using f(1) fna read_int64_comma [OF f(2)] by (intro scan_stops) auto
  have u64: "scan_column read_uint64 fields = AllRead \<Longrightarrow>
      list_ex (\<lambda>f. f \<in> set na_values \<or> read_uint64 f = Negative) fields"
  proof -
    assume a: "scan_column read_uint64 fields = AllRead"
    have "read_uint64 f = Negative"
    proof (rule ccontr)
      assume "read_uint64 f \<noteq> Negative"
      with f(1) fna read_uint64_comma [OF f(2)]
      have "scan_column read_uint64 fields \<noteq> AllRead"
        by (intro scan_stops) auto
      with a show False by simp
    qed
    with f(1) show ?thesis unfolding list_ex_iff by blast
  qed
  show ?thesis
  proof (cases "scan_column read_int64 fields")
    case AllRead
    with s64 show ?thesis by simp
  next
    case NotIntegers
    with later show ?thesis by (simp add: infer_column_def)
  next
    case TooWide
    show ?thesis
    proof (cases "scan_column read_uint64 fields")
      case AllRead
      with u64 TooWide cells show ?thesis by (simp add: infer_column_def)
    next
      case NotIntegers
      with TooWide later show ?thesis by (simp add: infer_column_def)
    next
      case inner: TooWide
      with TooWide cells show ?thesis by (simp add: infer_column_def)
    qed
  qed
qed

lemma transpose_pair:
  "length xs = length ys \<Longrightarrow> transpose [xs, ys] = map (\<lambda>(x, y). [x, y]) (zip xs ys)"
  by (induction xs ys rule: list_induct2) simp_all

lemma split_no_sep_text: "sep \<notin> set a \<Longrightarrow> split sep a = [a]"
  by (induction a) auto

lemma split_append_sep: "sep \<notin> set a \<Longrightarrow> split sep (a @ sep # b) = a # split sep b"
  by (induction a) auto

lemma split_join_comma:
  assumes "\<forall>p \<in> set (p0 # ps). CHR '','' \<notin> set p"
  shows "split (CHR '','') (join '', '' (p0 # ps)) = p0 # map (\<lambda>p. CHR '' '' # p) ps"
  using assms
proof (induction ps arbitrary: p0)
  case Nil
  then show ?case by (simp add: split_no_sep_text)
next
  case (Cons p ps)
  have "split (CHR '','') (p0 @ CHR '','' # (CHR '' '' # join '', '' (p # ps))) =
      p0 # split (CHR '','') (CHR '' '' # join '', '' (p # ps))"
    using Cons.prems by (intro split_append_sep) simp
  moreover have "split (CHR '','') (join '', '' (p # ps)) = p # map (\<lambda>p. CHR '' '' # p) ps"
    using Cons.prems by (intro Cons.IH) simp
  ultimately show ?case by simp
qed

lemma decimal_char_not_space: "c \<in> set ''0123456789+-.einfa'' \<Longrightarrow> \<not> float_space c"
  unfolding float_space_def by auto

lemma float_strip_decimal_text:
  assumes "decimal_text t"
  shows "float_strip t = t" and "float_strip (CHR '' '' # t) = t"
proof -
  have ns: "\<forall>c \<in> set t. \<not> float_space c"
    using assms decimal_char_not_space unfolding decimal_text_def by blast
  then have r: "\<forall>c \<in> set (rev t). \<not> float_space c" by simp
  have sp: "float_space (CHR '' '')" by (simp add: float_space_def)
  show "float_strip t = t"
    using ns r by (simp add: float_strip_def dropWhile_none)
  show "float_strip (CHR '' '' # t) = t"
    using ns r sp by (simp add: float_strip_def dropWhile_none)
qed

lemma floats_decimal:
  assumes "\<forall>t \<in> set ts. \<exists>u. (t = u \<or> t = CHR '' '' # u) \<and> decimal_text u \<and> py_float u \<noteq> None"
  shows "floats py_float ts = Inr (map (\<lambda>t. the (py_float (float_strip t))) ts)"
  using assms
proof (induction ts)
  case Nil
  then show ?case by simp
next
  case (Cons t ts)
  then obtain u where u: "t = u \<or> t = CHR '' '' # u" "decimal_text u" "py_float u \<noteq> None"
    by auto
  then have "float_strip t = u" using float_strip_decimal_text [OF u(2)] by auto
  with u(3) obtain y where "py_float (float_strip t) = Some y" by auto
  with Cons show ?case by simp
qed

lemma convert_vector:
  assumes repr: "\<forall>x. decimal_text (repr x)"
    and ok: "\<forall>x. py_float (repr x) \<noteq> None"
    and ne: "emb \<noteq> []"
  shows "convert py_float [''PID'', ''embedding''] [cell, StrCell (join '', '' (map repr emb))] =
     Inr (map (\<lambda>x. the (py_float (repr x))) emb)"
proof -
  obtain x xs where emb: "emb = x # xs" using ne by (cases emb) auto
  have nc: "\<forall>p \<in> set (repr x # map repr xs). CHR '','' \<notin> set p"
    using repr decimal_text_plain by (auto simp: needs_quotes_def)
  have sp: "split (CHR '','') (join '', '' (map repr emb)) =
      repr x # map (\<lambda>p. CHR '' '' # p) (map repr xs)"
    using split_join_comma [OF nc] emb by simp
  have "floats py_float (repr x # map (\<lambda>p. CHR '' '' # p) (map repr xs)) =
      Inr (map (\<lambda>t. the (py_float (float_strip t))) (repr x # map (\<lambda>p. CHR '' '' # p) (map repr xs)))"
    using repr ok by (intro floats_decimal) auto
  moreover have "map (\<lambda>t. the (py_float (float_strip t))) (repr x # map (\<lambda>p. CHR '' '' # p) (map repr xs)) =
      map (\<lambda>x. the (py_float (repr x))) emb"
    using repr float_strip_decimal_text by (simp add: emb comp_def)
  ultimately show ?thesis
    using sp by (simp add: convert_def)
qed

lemma pad_rows_exact: "\<forall>r \<in> set rs. length r = width \<Longrightarrow> pad_rows width rs = Inr rs"
  by (induction rs) auto

lemma comma_in_joined:
  "2 \<le> length emb \<Longrightarrow> CHR '','' \<in> set (join '', '' (map repr emb))"
  using sep_in_join [of "map repr emb" "'', ''"] by auto

lemma pieces_Nil: "pieces n [] = []"
  by (simp add: pieces.simps)

lemma pieces_Cons:
  "pieces n (x # xs) = take (max 1 n) (x # xs) # pieces n (drop (max 1 n) (x # xs))"
  by (subst pieces.simps) simp

lemma concat_pieces: "concat (pieces n xs) = xs"
proof (induction n xs rule: pieces.induct)
  case (1 n xs)
  show ?case
  proof (cases xs)
    case Nil
    then show ?thesis by (simp add: pieces_Nil)
  next
    case (Cons y ys)
    with 1 show ?thesis by (simp add: pieces_Cons)
  qed
qed

lemma pieces_map: "pieces n (map f xs) = map (map f) (pieces n xs)"
proof (induction n xs rule: pieces.induct)
  case (1 n xs)
  show ?case
  proof (cases xs)
    case Nil
    then show ?thesis by (simp add: pieces_Nil)
  next
    case (Cons y ys)
    with 1 have "pieces n (map f (drop (max 1 n) xs)) = map (map f) (pieces n (drop (max 1 n) xs))"
      by simp
    then have "pieces n (drop (max 1 n) (map f xs)) = map (map f) (pieces n (drop (max 1 n) xs))"
      by (simp only: drop_map)
    moreover have "pieces n (map f xs) =
        take (max 1 n) (map f xs) # pieces n (drop (max 1 n) (map f xs))"
      using Cons pieces_Cons [of n "f y" "map f ys"] by simp
    moreover have "pieces n xs = take (max 1 n) xs # pieces n (drop (max 1 n) xs)"
      using Cons pieces_Cons [of n y ys] by simp
    ultimately show ?thesis by (simp add: take_map)
  qed
qed

lemma pieces_subset: "p \<in> set (pieces n xs) \<Longrightarrow> set p \<subseteq> set xs"
proof -
  assume "p \<in> set (pieces n xs)"
  then have "set p \<subseteq> set (concat (pieces n xs))" by auto
  then show ?thesis by (simp only: concat_pieces)
qed

lemma pieces_whole: "xs \<noteq> [] \<Longrightarrow> length xs \<le> max 1 n \<Longrightarrow> pieces n xs = [xs]"
  by (subst pieces.simps) (simp add: pieces_Nil)

lemma infer_pieces_int:
  assumes "\<forall>i \<in> set pids. - (2 ^ 63) \<le> i \<and> i < 2 ^ 63"
  shows "infer_pieces n pd_number (map str_int pids) = map IntCell pids"
proof -
  have "infer_column pd_number (map str_int p) = map IntCell p" if "p \<in> set (pieces n pids)" for p
    using that assms pieces_subset [OF that] by (intro infer_column_int) blast
  then have eq: "map (\<lambda>p. infer_column pd_number (map str_int p)) (pieces n pids) =
      map (map IntCell) (pieces n pids)"
    by (intro map_cong) auto
  have "infer_pieces n pd_number (map str_int pids) =
      concat (map (\<lambda>p. infer_column pd_number (map str_int p)) (pieces n pids))"
    by (simp add: infer_pieces_def pieces_map comp_def)
  also have "\<dots> = concat (map (map IntCell) (pieces n pids))"
    by (simp only: eq)
  also have "\<dots> = map IntCell (concat (pieces n pids))"
    by (simp only: map_concat)
  finally show ?thesis by (simp only: concat_pieces)
qed

lemma infer_pieces_text:
  assumes num: "\<forall>s. CHR '','' \<in> set s \<longrightarrow> pd_number s = None"
    and some: "\<forall>p \<in> set (pieces n xs). \<exists>x \<in> set p. CHR '','' \<in> set (g x)"
    and na: "\<forall>x \<in> set xs. g x \<notin> set na_values"
  shows "infer_pieces n pd_number (map g xs) = map StrCell (map g xs)"
proof -
  have "infer_column pd_number (map g p) = map StrCell (map g p)" if p: "p \<in> set (pieces n xs)" for p
  proof -
    from some p obtain x where x: "x \<in> set p" "CHR '','' \<in> set (g x)" by blast
    have "\<forall>f \<in> set (map g p). f \<notin> set na_values"
      using na pieces_subset [OF p] by auto
    moreover have "g x \<in> set (map g p)" using x(1) by simp
    ultimately show ?thesis
      using x(2) by (intro infer_column_text [OF num]) auto
  qed
  then have eq: "map (\<lambda>p. infer_column pd_number (map g p)) (pieces n xs) =
      map (map (\<lambda>x. StrCell (g x))) (pieces n xs)"
    by (intro map_cong) auto
  have "infer_pieces n pd_number (map g xs) =
      concat (map (\<lambda>p. infer_column pd_number (map g p)) (pieces n xs))"
    by (simp add: infer_pieces_def pieces_map comp_def)
  also have "\<dots> = concat (map (map (\<lambda>x. StrCell (g x))) (pieces n xs))"
    by (simp only: eq)
  also have "\<dots> = map (\<lambda>x. StrCell (g x)) (concat (pieces n xs))"
    by (simp only: map_concat)
  finally show ?thesis by (simp add: concat_pieces)
qed

lemma read_csv_writer:
  assumes repr: "\<forall>x. decimal_text (repr x)"
    and num: "\<forall>s. CHR '','' \<in> set s \<longrightarrow> pd_number s = None"
    and recs: "\<forall>(pid, emb) \<in> set records. - (2 ^ 63) \<le> pid \<and> pid < 2 ^ 63 \<and> emb \<noteq> [] \<and>
        (\<forall>x. emb = [x] \<longrightarrow> repr x \<notin> set na_values)"
    and some: "\<forall>piece \<in> set (pieces buffer_lines records). \<exists>(pid, emb) \<in> set piece. 2 \<le> length emb"
  shows "read_csv buffer_lines pd_number (embedding_writer repr records) =
     Inr ([''PID'', ''embedding''],
          map (\<lambda>(pid, emb). [IntCell pid, StrCell (join '', '' (map repr emb))]) records)"
proof -
  let ?rows = "map (\<lambda>(pid, emb). [str_int pid, join '', '' (map repr emb)]) records"
  let ?fields = "map (\<lambda>(pid, emb). join '', '' (map repr emb)) records"
  have ne: "\<forall>(pid, emb) \<in> set records. emb \<noteq> []"
    using recs by auto
  have tok: "tokenize (embedding_writer repr records) = Inr ([''PID'', ''embedding''] # ?rows)"
    by (rule tokenize_writer [OF repr ne])
  have len: "\<forall>r \<in> set ?rows. length r = 2" by auto
  have width: "(case ?rows of [] \<Rightarrow> length [''PID'', ''embedding''] | r # _ \<Rightarrow>
      max (length [''PID'', ''embedding'']) (length r)) = 2"
    by (cases records) (auto split: prod.splits)
  have pad: "pad_rows 2 ?rows = Inr ?rows"
    using len by (rule pad_rows_exact)
  have c0: "map (\<lambda>r. r ! 0) ?rows = map str_int (map fst records)"
    by (auto split: prod.splits)
  have c1: "map (\<lambda>r. r ! 1) ?rows = ?fields"
    by (auto split: prod.splits)
  have i0: "infer_pieces buffer_lines pd_number (map str_int (map fst records)) =
      map IntCell (map fst records)"
    using recs by (intro infer_pieces_int) auto
  have na: "\<forall>r \<in> set records. (\<lambda>(pid, emb). join '', '' (map repr emb)) r \<notin> set na_values"
  proof
    fix r assume m: "r \<in> set records"
    obtain pid emb where r: "r = (pid, emb)" by (cases r)
    have "join '', '' (map repr emb) \<notin> set na_values"
    proof (cases "2 \<le> length emb")
      case True
      then show ?thesis by (intro comma_not_na comma_in_joined)
    next
      case False
      moreover from m r recs have "emb \<noteq> []" by auto
      ultimately obtain x where x: "emb = [x]"
        by (cases emb) (auto simp: Suc_le_eq)
      with m r recs have "repr x \<notin> set na_values" by auto
      with x show ?thesis by simp
    qed
    with r show "(\<lambda>(pid, emb). join '', '' (map repr emb)) r \<notin> set na_values" by simp
  qed
  have cm: "\<forall>p \<in> set (pieces buffer_lines records).
      \<exists>r \<in> set p. CHR '','' \<in> set ((\<lambda>(pid, emb). join '', '' (map repr emb)) r)"
  proof
    fix p assume "p \<in> set (pieces buffer_lines records)"
    with some obtain pid emb where m: "(pid, emb) \<in> set p" and two: "2 \<le> length emb"
      by blast
    from two have "CHR '','' \<in> set (join '', '' (map repr emb))"
      by (rule comma_in_joined)
    with m show "\<exists>r \<in> set p. CHR '','' \<in> set ((\<lambda>(pid, emb). join '', '' (map repr emb)) r)"
      by force
  qed
  have i1: "infer_pieces buffer_lines pd_number ?fields = map StrCell ?fields"
    by (rule infer_pieces_text [OF num cm na])
  have tr: "transpose [map IntCell (map fst records), map StrCell ?fields] =
      map (\<lambda>(pid, emb). [IntCell pid, StrCell (join '', '' (map repr emb))]) records"
    by (subst transpose_pair) (auto simp: zip_map_map zip_same_conv_map split: prod.splits)
  have cols: "map (\<lambda>j. map (\<lambda>r. r ! j) ?rows) [2 - length [''PID'', ''embedding'']..<2] =
      [map (\<lambda>r. r ! 0) ?rows, map (\<lambda>r. r ! 1) ?rows]"
    by (simp add: upt_rec)
  show ?thesis
    unfolding read_csv_def tok
    by (simp only: sum.case list.case width pad Let_def cols c0 c1 list.map i0 i1 tr)
qed

lemma apply_rows_map: "apply_rows f (h r) (map h rs) = apply_rows (\<lambda>x. f (h x)) r rs"
proof (induction rs arbitrary: r)
  case Nil
  then show ?case by simp
next
  case (Cons r' rs)
  then show ?case by (cases "f (h r)") simp_all
qed

lemma apply_rows_all:
  assumes "\<forall>x \<in> set (r # rs). f x = Inr (g x)"
  shows "apply_rows f r rs = Inr (map g (r # rs))"
  using assms by (induction rs arbitrary: r) auto

lemma set_column_second: "set_column [''PID'', ''embedding''] [a, b] v = [a, ListCell v]"
  by (simp add: set_column_def)

lemma scenario_float_reads_back:
  "\<forall>x. \<exists>y. scenario_float (scenario_repr x) = Some y \<and> x = y"
proof
  fix x show "\<exists>y. scenario_float (scenario_repr x) = Some y \<and> x = y"
    by (cases x) (simp_all add: scenario_float_def)
qed

lemma scenario_float_no_comma: "\<forall>s. CHR '','' \<in> set s \<longrightarrow> scenario_float s = None"
  by (auto simp: scenario_float_def)

lemma scenario_repr_not_na: "scenario_repr x \<notin> set na_values"
  by (cases x) (simp_all add: na_values_def)

lemma single_component_fails:
  "embedding_reader n scenario_float scenario_float (embedding_writer scenario_repr [(7, [One])]) =
     Inl AttributeError"
proof -
  have "embedding_writer scenario_repr [(7, [One])] =
      ''PID,embedding'' @ [CHR 0x0D, CHR 0x0A] @ ''7,1.0'' @ [CHR 0x0D, CHR 0x0A]"
    by code_simp
  moreover have "tokenize (''PID,embedding'' @ [CHR 0x0D, CHR 0x0A] @ ''7,1.0'' @ [CHR 0x0D, CHR 0x0A]) =
      Inr [[''PID'', ''embedding''], [''7'', ''1.0'']]"
    by code_simp
  ultimately have t: "tokenize (embedding_writer scenario_repr [(7, [One])]) =
      Inr [[''PID'', ''embedding''], [''7'', ''1.0'']]"
    by simp
  have p: "pieces n [f] = [[f]]" for f :: string
    by (rule pieces_whole) simp_all
  have c0: "infer_column scenario_float [''7''] = [IntCell 7]"
    by code_simp
  have c1: "infer_column scenario_float [''1.0''] = [NumCell One]"
    by code_simp
  have "read_csv n scenario_float (embedding_writer scenario_repr [(7, [One])]) =
      Inr ([''PID'', ''embedding''], [[IntCell 7, NumCell One]])"
    unfolding read_csv_def t by (simp add: infer_pieces_def p c0 c1 upt_rec)
  then show ?thesis
    by (simp add: embedding_reader_def apply_convert_def convert_def)
qed

lemma header_only_fails:
  "embedding_reader n pd_number py_float (embedding_writer repr []) = Inl ValueError"
proof -
  have "tokenize (embedding_writer repr []) = Inr [[''PID'', ''embedding'']]"
    by (simp add: tokenize_def embedding_writer_def header_run)
  then have "read_csv n pd_number (embedding_writer repr []) = Inr ([''PID'', ''embedding''], [])"
    by (simp add: read_csv_def infer_pieces_def pieces_Nil upt_rec)
  then show ?thesis
    by (simp add: embedding_reader_def apply_convert_def set_embedding_def)
qed

text \<open>
  C1 (as amended). Take the rendering of a component to be a decimal text that
  \<^verbatim>\<open>float\<close> reads back as a number \<open>close\<close> to the component (numerically equal
  within the precision of the text), pandas' number conversion to reject a text that
  holds a comma, and the identifiers to be 64-bit integers. Then for every sequence of
  records that is not empty, in which no vector is empty, no one-component vector is
  rendered as a missing-value marker, and every piece of rows that pandas infers at a
  time holds a vector of two components or more, the Reader applied to the file that
  the Writer produces returns, without an error, one row per record: the same
  identifiers in the same order, each with a vector whose components are \<open>close\<close> to
  the components written, in their order.
\<close>

theorem reader_writer_round_trip:
  fixes close :: "'f \<Rightarrow> 'g \<Rightarrow> bool"
  assumes repr: "\<forall>x. decimal_text (repr x)"
    and float: "\<forall>x. \<exists>y. py_float (repr x) = Some y \<and> close x y"
    and num: "\<forall>s. CHR '','' \<in> set s \<longrightarrow> pd_number s = None"
    and recs: "\<forall>(pid, emb) \<in> set records. - (2 ^ 63) \<le> pid \<and> pid < 2 ^ 63 \<and> emb \<noteq> [] \<and>
        (\<forall>x. emb = [x] \<longrightarrow> repr x \<notin> set na_values)"
    and ne: "records \<noteq> []"
    and some: "\<forall>piece \<in> set (pieces buffer_lines records). \<exists>(pid, emb) \<in> set piece. 2 \<le> length emb"
  shows "\<exists>vectors.
     embedding_reader buffer_lines pd_number py_float (embedding_writer repr records) =
       Inr (map (\<lambda>(pid, v). [IntCell pid, ListCell v]) (zip (map fst records) vectors)) \<and>
     length vectors = length records \<and>
     list_all2 (list_all2 close) (map snd records) vectors"
proof -
  let ?reread = "\<lambda>x. the (py_float (repr x))"
  let ?row = "\<lambda>(pid, emb). [IntCell pid, StrCell (join '', '' (map repr emb))] :: 'g cell list"
  let ?frame = "map ?row records"
  let ?vectors = "map (\<lambda>(pid, emb). map ?reread emb) records"
  have ok: "\<forall>x. py_float (repr x) \<noteq> None"
    using float by fastforce
  have near: "close x (?reread x)" for x
    using float by (metis option.sel)
  have rd: "read_csv buffer_lines pd_number (embedding_writer repr records) =
      Inr ([''PID'', ''embedding''], ?frame)"
    by (rule read_csv_writer [OF repr num recs some])
  from ne obtain r0 rs where records: "records = r0 # rs"
    by (cases records) auto
  have "\<forall>r \<in> set (r0 # rs). convert py_float [''PID'', ''embedding''] (?row r) =
      Inr ((\<lambda>(pid, emb). map ?reread emb) r)"
  proof
    fix r assume r: "r \<in> set (r0 # rs)"
    obtain pid emb where p: "r = (pid, emb)" by (cases r)
    with r recs records have "emb \<noteq> []" by fastforce
    from convert_vector [OF repr ok this] p
    show "convert py_float [''PID'', ''embedding''] (?row r) =
      Inr ((\<lambda>(pid, emb). map ?reread emb) r)"
      by simp
  qed
  then have "apply_rows (\<lambda>r. convert py_float [''PID'', ''embedding''] (?row r)) r0 rs =
      Inr (map (\<lambda>(pid, emb). map ?reread emb) (r0 # rs))"
    by (rule apply_rows_all)
  then have "apply_rows (convert py_float [''PID'', ''embedding'']) (?row r0) (map ?row rs) =
      Inr ?vectors"
    unfolding records by (simp only: apply_rows_map)
  then have ap: "apply_convert py_float [''PID'', ''embedding''] ?frame = Inr (Series ?vectors)"
    unfolding records by (simp add: apply_convert_def)
  have out: "map (\<lambda>(s, v). set_column [''PID'', ''embedding''] s v) (zip ?frame ?vectors) =
      map (\<lambda>(pid, v). [IntCell pid, ListCell v]) (zip (map fst records) ?vectors)"
    by (induction records) (auto simp: set_column_second)
  have "embedding_reader buffer_lines pd_number py_float (embedding_writer repr records) =
      Inr (map (\<lambda>(pid, v). [IntCell pid, ListCell v]) (zip (map fst records) ?vectors))"
    unfolding embedding_reader_def rd
    by (simp only: sum.case prod.case ap set_embedding_def applied.case out)
  moreover have "length ?vectors = length records" by simp
  moreover have "list_all2 (list_all2 close) (map snd records) ?vectors"
  proof -
    have v: "list_all2 close emb (map ?reread emb)" for emb
      using near by (induction emb) simp_all
    show ?thesis
      using v by (induction records) auto
  qed
  ultimately show ?thesis by blast
qed

lemma scenario_pieces:
  "pieces 262144 [(3 :: int, [Tenth, MinusTwoAndHalf]), (7, [One])] =
     [[(3, [Tenth, MinusTwoAndHalf]), (7, [One])]]"
  by (rule pieces_whole) simp_all

theorem reader_writer_round_trip_witness:
  "embedding_reader 262144 scenario_float scenario_float
     (embedding_writer scenario_repr [(3, [Tenth, MinusTwoAndHalf]), (7, [One])]) =
   Inr [[IntCell 3, ListCell [Tenth, MinusTwoAndHalf]], [IntCell 7, ListCell [One]]]"
proof -
  let ?records = "[(3 :: int, [Tenth, MinusTwoAndHalf]), (7, [One])]"
  have recs: "\<forall>(pid, emb) \<in> set ?records. - (2 ^ 63) \<le> pid \<and> pid < 2 ^ 63 \<and> emb \<noteq> [] \<and>
      (\<forall>x. emb = [x] \<longrightarrow> scenario_repr x \<notin> set na_values)"
    by (simp add: scenario_repr_not_na)
  have ne: "?records \<noteq> []"
    by simp
  have some: "\<forall>piece \<in> set (pieces 262144 ?records). \<exists>(pid, emb) \<in> set piece. 2 \<le> length emb"
    unfolding scenario_pieces by simp
  from reader_writer_round_trip
    [OF scenario_repr_decimal scenario_float_reads_back scenario_float_no_comma recs ne some]
  obtain vectors where
    r: "embedding_reader 262144 scenario_float scenario_float (embedding_writer scenario_repr ?records) =
       Inr (map (\<lambda>(pid, v). [IntCell pid, ListCell v]) (zip (map fst ?records) vectors))"
    and v: "list_all2 (list_all2 (=)) (map snd ?records) vectors"
    by blast
  from v have "vectors = map snd ?records"
    by (simp only: list.rel_eq)
  with r show ?thesis by simp
qed

text \<open>
  The claim as stated fails for a file in which every vector has one component: pandas
  reads the column \<^verbatim>\<open>embedding\<close> as numbers, and a number has no \<^verbatim>\<open>split\<close>. It
  fails for no records as well: the assignment on line 348 raises \<^verbatim>\<open>ValueError\<close>.
\<close>

theorem single_component_counterexample:
  "embedding_reader 262144 scenario_float scenario_float
     (embedding_writer scenario_repr [(7, [One])]) = Inl AttributeError \<and>
   embedding_reader 262144 scenario_float scenario_float
     (embedding_writer scenario_repr []) = Inl ValueError"
  using single_component_fails [of 262144] header_only_fails [of 262144 scenario_float scenario_float scenario_repr]
  by (rule conjI)



end
